theory Spec2Isabelle
  imports Complex_Main "HOL-Library.AList" "HOL-Library.Multiset" "HOL-Library.Sublist"
begin

section \<open>Data model (models/config\_models.py)\<close>

text \<open>
  Exceptions the handler can raise.  A dictionary subscript on a missing key raises
  \<open>KeyError\<close>, a true division by zero \<open>ZeroDivisionError\<close>, a subscript on
  \<open>None\<close> \<open>TypeError\<close>, and \<open>list.index\<close> on a missing element \<open>ValueError\<close>.
\<close>

datatype py_error = KeyError | ZeroDivisionError | TypeError | ValueError

text \<open>
  A position is the dictionary \<open>{"x": ..., "y": ...}\<close>.  Python floats are modelled
  as real numbers.
\<close>

record position =
  pos_x :: real
  pos_y :: real

datatype payload = PStr string | PDict "(string \<times> string) list"

record DAGNode =
  node_id :: string
  name :: string
  description :: "string option"
  status :: "string option"
  timestamp :: "string option"
  result :: "payload option"
  position :: "position option"

record DAGEdge =
  from_node :: string
  to_node :: string
  label :: "string option"

record DAGElement =
  el_type :: string
  title :: string
  dag_description :: "string option"
  nodes :: "DAGNode list"
  edges :: "DAGEdge list"
  layout :: "string option"

text \<open>
  A Python \<open>dict\<close> keeps its keys in insertion order; it is an association list with
  \<open>map_of\<close> as lookup and \<open>AList.update\<close> as assignment (an existing key keeps its
  place, a new key goes to the end).
\<close>

type_synonym adjacency = "(string \<times> string list) list"
type_synonym degrees = "(string \<times> int) list"

section \<open>Building the adjacency and in-degree tables\<close>

text \<open>
  \<open>for node in nodes: adjacency[node.id] = []; in_degree[node.id] = 0\<close>
\<close>

definition init_tables :: "DAGNode list \<Rightarrow> adjacency \<times> degrees" where
  "init_tables ns =
     fold (\<lambda>n (adj, deg). (AList.update (node_id n) [] adj, AList.update (node_id n) 0 deg))
       ns ([], [])"

text \<open>
  \<open>adjacency[edge.from_node].append(edge.to_node); in_degree[edge.to_node] += 1\<close>:
  both subscripts raise \<open>KeyError\<close> on an unknown id.
\<close>

definition add_edge :: "DAGEdge \<Rightarrow> adjacency \<times> degrees \<Rightarrow> py_error + adjacency \<times> degrees" where
  "add_edge e s =
     (case s of (adj, deg) \<Rightarrow>
        (case map_of adj (from_node e) of
           None \<Rightarrow> Inl KeyError
         | Some ts \<Rightarrow>
             (case map_of deg (to_node e) of
                None \<Rightarrow> Inl KeyError
              | Some d \<Rightarrow>
                  Inr (AList.update (from_node e) (ts @ [to_node e]) adj,
                       AList.update (to_node e) (d + 1) deg))))"

fun add_edges :: "DAGEdge list \<Rightarrow> adjacency \<times> degrees \<Rightarrow> py_error + adjacency \<times> degrees" where
  "add_edges [] s = Inr s"
| "add_edges (e # es) s =
     (case add_edge e s of Inl err \<Rightarrow> Inl err | Inr s' \<Rightarrow> add_edges es s')"

definition build_graph :: "DAGNode list \<Rightarrow> DAGEdge list \<Rightarrow> py_error + adjacency \<times> degrees" where
  "build_graph ns es = add_edges es (init_tables ns)"

section \<open>Topological order (get\_topological\_order)\<close>

text \<open>\<open>next((n for n in dag_element.nodes if n.id == neighbor_id), None)\<close>\<close>

definition find_node :: "DAGNode list \<Rightarrow> string \<Rightarrow> DAGNode option" where
  "find_node ns k = find (\<lambda>n. node_id n = k) ns"

text \<open>
  The inner loop over \<open>adjacency[current.id]\<close>: each neighbour's in-degree is
  decremented, and a neighbour whose in-degree becomes exactly zero is looked up in
  the node list and appended to the queue.
\<close>

fun relax :: "DAGNode list \<Rightarrow> string list \<Rightarrow> degrees \<times> DAGNode list
    \<Rightarrow> py_error + degrees \<times> DAGNode list" where
  "relax ns [] s = Inr s"
| "relax ns (v # vs) s =
     (case s of (deg, q) \<Rightarrow>
        (case map_of deg v of
           None \<Rightarrow> Inl KeyError
         | Some d \<Rightarrow>
             (let deg' = AList.update v (d - 1) deg in
              if d - 1 = 0 then
                (case find_node ns v of
                   None \<Rightarrow> relax ns vs (deg', q)
                 | Some n \<Rightarrow> relax ns vs (deg', q @ [n]))
              else relax ns vs (deg', q))))"

text \<open>The number of dictionary entries holding a positive in-degree.\<close>

definition positives :: "degrees \<Rightarrow> nat" where
  "positives deg = length (filter (\<lambda>kv. 0 < snd kv) deg)"

lemma positives_update:
  "map_of deg v = Some d \<Longrightarrow>
     positives (AList.update v (d - 1) deg) = positives deg - (if d = 1 then 1 else 0)
     \<and> (d = 1 \<longrightarrow> 0 < positives deg)"
  by (induction deg) (auto simp: positives_def split: if_splits)

lemma relax_measure:
  "relax ns vs (deg, q) = Inr (deg', q') \<Longrightarrow>
     length q' + positives deg' \<le> length q + positives deg"
proof (induction vs arbitrary: deg q)
  case Nil
  then show ?case by simp
next
  case (Cons v vs)
  from Cons.prems obtain d where d: "map_of deg v = Some d"
    by (auto split: option.splits)
  let ?deg = "AList.update v (d - 1) deg"
  from positives_update [OF d]
  have p: "positives ?deg = positives deg - (if d = 1 then 1 else 0)"
    and z: "d = 1 \<longrightarrow> 0 < positives deg" by simp_all
  show ?case
  proof (cases "d - 1 = 0")
    case True
    then have d1: "d = 1" by simp
    show ?thesis
    proof (cases "find_node ns v")
      case None
      with Cons.prems d True have "relax ns vs (?deg, q) = Inr (deg', q')"
        by simp
      from Cons.IH [OF this] p show ?thesis by simp
    next
      case (Some n)
      with Cons.prems d True have "relax ns vs (?deg, q @ [n]) = Inr (deg', q')"
        by simp
      from Cons.IH [OF this] p z d1 show ?thesis by simp
    qed
  next
    case False
    with Cons.prems d have "relax ns vs (?deg, q) = Inr (deg', q')"
      by simp
    from Cons.IH [OF this] p False show ?thesis by simp
  qed
qed

text \<open>
  The \<open>while queue:\<close> loop.  It ends on every state: each round takes one node off
  the queue, and a node joins the queue only when an entry of the in-degree table stops
  being positive.
\<close>

function kahn_loop :: "DAGNode list \<Rightarrow> adjacency \<Rightarrow> degrees \<Rightarrow> DAGNode list \<Rightarrow> DAGNode list
    \<Rightarrow> py_error + DAGNode list" where
  "kahn_loop ns adj deg [] topo = Inr topo"
| "kahn_loop ns adj deg (cur # q) topo =
     (case map_of adj (node_id cur) of
        None \<Rightarrow> Inl KeyError
      | Some vs \<Rightarrow>
          (case relax ns vs (deg, q) of
             Inl err \<Rightarrow> Inl err
           | Inr (deg', q') \<Rightarrow> kahn_loop ns adj deg' q' (topo @ [cur])))"
  by pat_completeness auto
termination
proof (relation "measure (\<lambda>(ns, adj, deg, q, topo). length q + positives deg)", goal_cases)
  case 1
  show ?case by simp
next
  case (2 ns adj deg cur q topo vs x deg' q')
  then have "relax ns vs (deg, q) = Inr (deg', q')" by simp
  from relax_measure [OF this] show ?case by simp
qed

definition get_topological_order :: "DAGElement \<Rightarrow> py_error + DAGNode list" where
  "get_topological_order g =
     (case build_graph (nodes g) (edges g) of
        Inl err \<Rightarrow> Inl err
      | Inr (adj, deg) \<Rightarrow>
          kahn_loop (nodes g) adj deg
            (filter (\<lambda>n. map_of deg (node_id n) = Some 0) (nodes g)) [])"

section \<open>Acyclicity check (\_check\_acyclic)\<close>

text \<open>
  The same loop on node ids: a neighbour whose in-degree becomes zero is appended to
  the queue of ids, and the loop counts the ids it takes off the queue.
\<close>

fun relax_ids :: "string list \<Rightarrow> degrees \<times> string list \<Rightarrow> py_error + degrees \<times> string list" where
  "relax_ids [] s = Inr s"
| "relax_ids (v # vs) s =
     (case s of (deg, q) \<Rightarrow>
        (case map_of deg v of
           None \<Rightarrow> Inl KeyError
         | Some d \<Rightarrow>
             (let deg' = AList.update v (d - 1) deg in
              if d - 1 = 0 then relax_ids vs (deg', q @ [v]) else relax_ids vs (deg', q))))"

lemma relax_ids_measure:
  "relax_ids vs (deg, q) = Inr (deg', q') \<Longrightarrow>
     length q' + positives deg' \<le> length q + positives deg"
proof (induction vs arbitrary: deg q)
  case Nil
  then show ?case by simp
next
  case (Cons v vs)
  from Cons.prems obtain d where d: "map_of deg v = Some d"
    by (auto split: option.splits)
  let ?deg = "AList.update v (d - 1) deg"
  from positives_update [OF d]
  have p: "positives ?deg = positives deg - (if d = 1 then 1 else 0)"
    and z: "d = 1 \<longrightarrow> 0 < positives deg" by simp_all
  show ?case
  proof (cases "d - 1 = 0")
    case True
    with Cons.prems d have "relax_ids vs (?deg, q @ [v]) = Inr (deg', q')"
      by simp
    from Cons.IH [OF this] p z True show ?thesis by simp
  next
    case False
    with Cons.prems d have "relax_ids vs (?deg, q) = Inr (deg', q')"
      by simp
    from Cons.IH [OF this] p False show ?thesis by simp
  qed
qed

function check_loop :: "adjacency \<Rightarrow> degrees \<Rightarrow> string list \<Rightarrow> nat \<Rightarrow> py_error + nat" where
  "check_loop adj deg [] processed_count = Inr processed_count"
| "check_loop adj deg (cur # q) processed_count =
     (case map_of adj cur of
        None \<Rightarrow> Inl KeyError
      | Some vs \<Rightarrow>
          (case relax_ids vs (deg, q) of
             Inl err \<Rightarrow> Inl err
           | Inr (deg', q') \<Rightarrow> check_loop adj deg' q' (processed_count + 1)))"
  by pat_completeness auto
termination
proof (relation "measure (\<lambda>(adj, deg, q, c). length q + positives deg)", goal_cases)
  case 1
  show ?case by simp
next
  case (2 adj deg cur q c vs x deg' q')
  then have "relax_ids vs (deg, q) = Inr (deg', q')" by simp
  from relax_ids_measure [OF this] show ?case by simp
qed

text \<open>
  \<open>deque([node_id for node_id, degree in in_degree.items() if degree == 0])\<close>, then the
  loop, then \<open>processed_count == len(nodes)\<close>.
\<close>

definition check_acyclic :: "DAGNode list \<Rightarrow> DAGEdge list \<Rightarrow> py_error + bool" where
  "check_acyclic ns es =
     (case build_graph ns es of
        Inl err \<Rightarrow> Inl err
      | Inr (adj, deg) \<Rightarrow>
          (case check_loop adj deg (map fst (filter (\<lambda>kv. snd kv = 0) deg)) 0 of
             Inl err \<Rightarrow> Inl err
           | Inr processed_count \<Rightarrow> Inr (processed_count = length ns)))"

section \<open>Validation (validate\_dag\_config)\<close>

text \<open>
  The messages appended to \<open>validation_errors\<close>, one constructor per message:
  "the DAG must contain at least one node", "node ids must be unique", "an edge refers
  to a start node that does not exist: ...", "an edge refers to a target node that does
  not exist: ...", "the DAG must not contain a cycle".
\<close>

datatype validation_error =
  NoNodes | DuplicateNodeIds | UnknownFromNode string | UnknownToNode string | ContainsCycle

fun check_edges :: "string list \<Rightarrow> DAGEdge list \<Rightarrow> validation_error option" where
  "check_edges node_ids [] = None"
| "check_edges node_ids (e # es) =
     (if from_node e \<notin> set node_ids then Some (UnknownFromNode (from_node e))
      else if to_node e \<notin> set node_ids then Some (UnknownToNode (to_node e))
      else check_edges node_ids es)"

text \<open>The verdict together with \<open>validation_errors\<close> as the call leaves it.\<close>

definition validate_dag_config :: "DAGElement \<Rightarrow> py_error + bool \<times> validation_error list" where
  "validate_dag_config g =
     (if nodes g = [] then Inr (False, [NoNodes])
      else
        (let node_ids = map node_id (nodes g) in
         if length node_ids \<noteq> card (set node_ids) then Inr (False, [DuplicateNodeIds])
         else
           (case check_edges node_ids (edges g) of
              Some err \<Rightarrow> Inr (False, [err])
            | None \<Rightarrow>
                (case check_acyclic (nodes g) (edges g) of
                   Inl err \<Rightarrow> Inl err
                 | Inr ok \<Rightarrow> if \<not> ok then Inr (False, [ContainsCycle]) else Inr (True, [])))))"

section \<open>Statistics (get\_dag\_statistics)\<close>

record dag_statistics =
  total_nodes :: nat
  total_edges :: nat
  density :: real
  start_nodes :: "string list"
  end_nodes :: "string list"
  status_distribution :: "(string \<times> nat) list"
  avg_in_degree :: real
  avg_out_degree :: real

type_synonym stat_tables = "adjacency \<times> degrees \<times> degrees"

definition init_stat_tables :: "DAGNode list \<Rightarrow> stat_tables" where
  "init_stat_tables ns =
     fold (\<lambda>n (adj, ind, outd).
         (AList.update (node_id n) [] adj, AList.update (node_id n) 0 ind,
          AList.update (node_id n) 0 outd))
       ns ([], [], [])"

definition count_edge :: "DAGEdge \<Rightarrow> stat_tables \<Rightarrow> py_error + stat_tables" where
  "count_edge e s =
     (case s of (adj, ind, outd) \<Rightarrow>
        (case map_of adj (from_node e) of
           None \<Rightarrow> Inl KeyError
         | Some ts \<Rightarrow>
             (case map_of ind (to_node e) of
                None \<Rightarrow> Inl KeyError
              | Some d \<Rightarrow>
                  (case map_of outd (from_node e) of
                     None \<Rightarrow> Inl KeyError
                   | Some d' \<Rightarrow>
                       Inr (AList.update (from_node e) (ts @ [to_node e]) adj,
                            AList.update (to_node e) (d + 1) ind,
                            AList.update (from_node e) (d' + 1) outd)))))"

fun count_edges :: "DAGEdge list \<Rightarrow> stat_tables \<Rightarrow> py_error + stat_tables" where
  "count_edges [] s = Inr s"
| "count_edges (e # es) s =
     (case count_edge e s of Inl err \<Rightarrow> Inl err | Inr s' \<Rightarrow> count_edges es s')"

text \<open>\<open>status = node.status or "unknown"\<close>: \<open>None\<close> and the empty string are falsy.\<close>

definition status_or_unknown :: "DAGNode \<Rightarrow> string" where
  "status_or_unknown n =
     (case status n of None \<Rightarrow> ''unknown'' | Some s \<Rightarrow> if s = [] then ''unknown'' else s)"

definition count_status :: "DAGNode \<Rightarrow> (string \<times> nat) list \<Rightarrow> (string \<times> nat) list" where
  "count_status n counts =
     (let s = status_or_unknown n in
      AList.update s ((case map_of counts s of None \<Rightarrow> 0 | Some c \<Rightarrow> c) + 1) counts)"

definition sum_values :: "degrees \<Rightarrow> int" where
  "sum_values deg = sum_list (map snd deg)"

definition get_dag_statistics :: "DAGElement \<Rightarrow> py_error + dag_statistics" where
  "get_dag_statistics g =
     (case count_edges (edges g) (init_stat_tables (nodes g)) of
        Inl err \<Rightarrow> Inl err
      | Inr (adj, ind, outd) \<Rightarrow>
          (let n = int (length (nodes g));
               m = int (length (edges g));
               starts = filter (\<lambda>nd. map_of ind (node_id nd) = Some 0) (nodes g);
               ends = filter (\<lambda>nd. map_of outd (node_id nd) = Some 0) (nodes g)
           in Inr \<lparr> total_nodes = length (nodes g),
                    total_edges = length (edges g),
                    density = real_of_int m / real_of_int (max 1 (n * (n - 1))),
                    start_nodes = map node_id starts,
                    end_nodes = map node_id ends,
                    status_distribution = fold count_status (nodes g) [],
                    avg_in_degree =
                      (if nodes g \<noteq> [] then real_of_int (sum_values ind) / real_of_int n else 0),
                    avg_out_degree =
                      (if nodes g \<noteq> [] then real_of_int (sum_values outd) / real_of_int n else 0) \<rparr>))"

section \<open>Mermaid rendering (convert\_to\_mermaid)\<close>

definition backslash :: char where
  "backslash = CHR 0x5C"

text \<open>
  The characters \<open>" ' \ [ ] { } ( ) # * + - . / :\<close> in the order of the source's list.
\<close>

definition special_chars :: "char list" where
  "special_chars =
     [CHR 0x22, CHR 0x27, CHR 0x5C, CHR ''['', CHR '']'', CHR ''{'', CHR ''}'', CHR ''('',
      CHR '')'', CHR ''#'', CHR ''*'', CHR ''+'', CHR ''-'', CHR ''.'', CHR ''/'', CHR '':'']"

text \<open>\<open>str.replace\<close> of a one-character pattern: every occurrence, left to right.\<close>

definition str_replace :: "char \<Rightarrow> string \<Rightarrow> string \<Rightarrow> string" where
  "str_replace c rep s = concat (map (\<lambda>x. if x = c then rep else [x]) s)"

definition escape_mermaid_text :: "string \<Rightarrow> string" where
  "escape_mermaid_text text = fold (\<lambda>c s. str_replace c [backslash, c] s) special_chars text"







section \<open>Layouts (optimize\_dag\_layout)\<close>

subsection \<open>Hierarchical layout\<close>

definition init_in_degree :: "DAGNode list \<Rightarrow> degrees" where
  "init_in_degree ns = fold (\<lambda>n deg. AList.update (node_id n) 0 deg) ns []"

fun count_in_edges :: "DAGEdge list \<Rightarrow> degrees \<Rightarrow> py_error + degrees" where
  "count_in_edges [] deg = Inr deg"
| "count_in_edges (e # es) deg =
     (case map_of deg (to_node e) of
        None \<Rightarrow> Inl KeyError
      | Some d \<Rightarrow> count_in_edges es (AList.update (to_node e) (d + 1) deg))"

text \<open>
  The pairs appended to the queue for the current node: for every edge leaving it, in
  edge order, the target node when it exists and is not yet visited.
\<close>

definition children :: "DAGNode list \<Rightarrow> DAGEdge list \<Rightarrow> string \<Rightarrow> string set \<Rightarrow> nat
    \<Rightarrow> (DAGNode \<times> nat) list" where
  "children ns es cur visited level =
     concat (map (\<lambda>e.
         if from_node e = cur then
           (case find_node ns (to_node e) of
              None \<Rightarrow> []
            | Some child \<Rightarrow> if node_id child \<notin> visited then [(child, level + 1)] else [])
         else []) es)"

lemma find_node_mem: "find_node ns k = Some n \<Longrightarrow> n \<in> set ns \<and> node_id n = k"
  unfolding find_node_def by (induction ns) (auto split: if_splits)

lemma children_subset: "fst ` set (children ns es cur visited level) \<subseteq> set ns"
  unfolding children_def
  by (auto split: if_splits option.splits dest: find_node_mem [OF sym])

function bfs_levels :: "DAGNode list \<Rightarrow> DAGEdge list \<Rightarrow> (DAGNode \<times> nat) list \<Rightarrow> string set
    \<Rightarrow> (string \<times> nat) list \<Rightarrow> (string \<times> nat) list" where
  "bfs_levels ns es [] visited node_levels = node_levels"
| "bfs_levels ns es ((cur, level) # q) visited node_levels =
     (if node_id cur \<in> visited then bfs_levels ns es q visited node_levels
      else
        bfs_levels ns es
          (q @ children ns es (node_id cur) (insert (node_id cur) visited) level)
          (insert (node_id cur) visited)
          (AList.update (node_id cur) level node_levels))"
  by pat_completeness auto
termination
proof (relation "measures
    [\<lambda>(ns, es, q, visited, lv). card ((node_id ` set ns \<union> node_id ` fst ` set q) - visited),
     \<lambda>(ns, es, q, visited, lv). length q]", goal_cases)
  case 1
  show ?case by simp
next
  case (2 ns es cur level q visited lv)
  then have "(node_id ` set ns \<union> node_id ` fst ` set ((cur, level) # q)) - visited
      = (node_id ` set ns \<union> node_id ` fst ` set q) - visited"
    by auto
  then show ?case by simp
next
  case (3 ns es cur level q visited lv)
  let ?v = "insert (node_id cur) visited"
  let ?S = "(node_id ` set ns \<union> node_id ` fst ` set ((cur, level) # q)) - visited"
  let ?S' = "(node_id ` set ns
      \<union> node_id ` fst ` set (q @ children ns es (node_id cur) ?v level)) - ?v"
  have "fst ` set (children ns es (node_id cur) ?v level) \<subseteq> set ns"
    by (rule children_subset)
  then have "?S' \<subseteq> ?S" by auto
  moreover from 3 have "node_id cur \<in> ?S" "node_id cur \<notin> ?S'" by auto
  ultimately have "?S' \<subset> ?S" by blast
  moreover have "finite ?S" by simp
  ultimately have "card ?S' < card ?S" by (rule psubset_card_mono [rotated])
  then show ?case by simp
qed

definition group_level :: "string \<times> nat \<Rightarrow> (nat \<times> string list) list \<Rightarrow> (nat \<times> string list) list" where
  "group_level kl nodes_at_level =
     (case kl of (k, level) \<Rightarrow>
        (case map_of nodes_at_level level of
           None \<Rightarrow> AList.update level [k] nodes_at_level
         | Some ks \<Rightarrow> AList.update level (ks @ [k]) nodes_at_level))"

text \<open>\<open>list.index\<close>: the first position of the element.\<close>

fun list_index :: "'a list \<Rightarrow> 'a \<Rightarrow> nat option" where
  "list_index [] x = None"
| "list_index (y # ys) x = (if y = x then Some 0 else map_option Suc (list_index ys x))"

definition place_node :: "(string \<times> nat) list \<Rightarrow> (nat \<times> string list) list \<Rightarrow> DAGNode
    \<Rightarrow> py_error + DAGNode" where
  "place_node node_levels nodes_at_level n =
     (case map_of node_levels (node_id n) of
        None \<Rightarrow> Inr n
      | Some level \<Rightarrow>
          (case map_of nodes_at_level level of
             None \<Rightarrow> Inl KeyError
           | Some level_nodes \<Rightarrow>
               (case list_index level_nodes (node_id n) of
                  None \<Rightarrow> Inl ValueError
                | Some index \<Rightarrow>
                    Inr (n\<lparr>position := Some
                      \<lparr>pos_x = (real index - real (length level_nodes) / 2) * 150,
                       pos_y = real (level * 100)\<rparr>\<rparr>))))"

text \<open>A \<open>for\<close> loop over the nodes that stops at the first exception.\<close>

fun for_each :: "('a \<Rightarrow> py_error + 'b) \<Rightarrow> 'a list \<Rightarrow> py_error + 'b list" where
  "for_each f [] = Inr []"
| "for_each f (x # xs) =
     (case f x of
        Inl err \<Rightarrow> Inl err
      | Inr y \<Rightarrow> (case for_each f xs of Inl err \<Rightarrow> Inl err | Inr ys \<Rightarrow> Inr (y # ys)))"

definition hierarchical_layout :: "DAGElement \<Rightarrow> py_error + DAGElement" where
  "hierarchical_layout g =
     (case count_in_edges (edges g) (init_in_degree (nodes g)) of
        Inl err \<Rightarrow> Inl err
      | Inr deg \<Rightarrow>
          (let start = filter (\<lambda>n. map_of deg (node_id n) = Some 0) (nodes g);
               node_levels = bfs_levels (nodes g) (edges g) (map (\<lambda>n. (n, 0)) start) {} [];
               nodes_at_level = fold group_level node_levels []
           in case for_each (place_node node_levels nodes_at_level) (nodes g) of
                Inl err \<Rightarrow> Inl err
              | Inr ns \<Rightarrow> Inr (g\<lparr>nodes := ns\<rparr>)))"

subsection \<open>Circular layout\<close>

definition py_truediv :: "real \<Rightarrow> real \<Rightarrow> py_error + real" where
  "py_truediv a b = (if b = 0 then Inl ZeroDivisionError else Inr (a / b))"

text \<open>\<open>angle % 1\<close> on floats is the fractional part.\<close>

definition circular_position :: "nat \<Rightarrow> nat \<Rightarrow> py_error + position" where
  "circular_position n i =
     (let radius = real_of_int (max 200 (int n * 50)) in
      case py_truediv (2 * 3.14159 * real i) (real n) of
        Inl err \<Rightarrow> Inl err
      | Inr angle \<Rightarrow>
          Inr \<lparr>pos_x = radius * 1.2 * (1 + 0.3 * real n * 0.1) * (0.6 + 0.4 * frac angle),
               pos_y = radius * 1.2 * (1 + 0.3 * real n * 0.1) * (0.6 + 0.4 * frac (angle + 0.5))\<rparr>)"

fun circular_loop :: "nat \<Rightarrow> nat \<Rightarrow> DAGNode list \<Rightarrow> py_error + DAGNode list" where
  "circular_loop n i [] = Inr []"
| "circular_loop n i (nd # rest) =
     (case circular_position n i of
        Inl err \<Rightarrow> Inl err
      | Inr p \<Rightarrow>
          (case circular_loop n (Suc i) rest of
             Inl err \<Rightarrow> Inl err
           | Inr rest' \<Rightarrow> Inr (nd\<lparr>position := Some p\<rparr> # rest')))"

definition circular_layout :: "DAGElement \<Rightarrow> py_error + DAGElement" where
  "circular_layout g =
     (case circular_loop (length (nodes g)) 0 (nodes g) of
        Inl err \<Rightarrow> Inl err
      | Inr ns \<Rightarrow> Inr (g\<lparr>nodes := ns\<rparr>))"

subsection \<open>Force layout\<close>

text \<open>
  \<open>random.uniform(a, b)\<close> is \<open>a + (b - a) * random.random()\<close>.  The values that
  \<open>random.random()\<close> returns are a parameter \<open>rand\<close> of the model: \<open>rand k\<close> is the
  \<open>k\<close>-th value drawn.
\<close>

definition uniform :: "real \<Rightarrow> real \<Rightarrow> real \<Rightarrow> real" where
  "uniform a b r = a + (b - a) * r"

fun init_random :: "(nat \<Rightarrow> real) \<Rightarrow> nat \<Rightarrow> DAGNode list \<Rightarrow> DAGNode list" where
  "init_random rand k [] = []"
| "init_random rand k (n # ns) =
     n\<lparr>position := Some \<lparr>pos_x = uniform (- 300) 300 (rand k),
                          pos_y = uniform (- 200) 200 (rand (k + 1))\<rparr>\<rparr>
       # init_random rand (k + 2) ns"

text \<open>The body of the loop over \<open>other_node\<close>, on the accumulated force.\<close>

definition repel :: "DAGNode \<Rightarrow> DAGNode \<Rightarrow> real \<times> real \<Rightarrow> py_error + real \<times> real" where
  "repel node other force =
     (case force of (force_x, force_y) \<Rightarrow>
        if node_id node \<noteq> node_id other then
          (case position node of
             None \<Rightarrow> Inl TypeError
           | Some p \<Rightarrow>
               (case position other of
                  None \<Rightarrow> Inl TypeError
                | Some po \<Rightarrow>
                    (let dx = pos_x p - pos_x po;
                         dy = pos_y p - pos_y po;
                         dist = sqrt (dx * dx + dy * dy)
                     in if dist > 0 then
                          (case py_truediv dx dist of
                             Inl err \<Rightarrow> Inl err
                           | Inr ux \<Rightarrow>
                               (case py_truediv (ux * 100) dist of
                                  Inl err \<Rightarrow> Inl err
                                | Inr ax \<Rightarrow>
                                    (case py_truediv dy dist of
                                       Inl err \<Rightarrow> Inl err
                                     | Inr uy \<Rightarrow>
                                         (case py_truediv (uy * 100) dist of
                                            Inl err \<Rightarrow> Inl err
                                          | Inr ay \<Rightarrow> Inr (force_x + ax, force_y + ay)))))
                        else Inr (force_x, force_y))))
        else Inr (force_x, force_y))"

fun net_force :: "DAGNode \<Rightarrow> DAGNode list \<Rightarrow> real \<times> real \<Rightarrow> py_error + real \<times> real" where
  "net_force node [] force = Inr force"
| "net_force node (other # rest) force =
     (case repel node other force of
        Inl err \<Rightarrow> Inl err
      | Inr force' \<Rightarrow> net_force node rest force')"

text \<open>
  One pass of \<open>for node in dag_element.nodes\<close>: the nodes already moved in this pass
  are seen at their new positions by the nodes after them.
\<close>

fun force_sweep :: "DAGNode list \<Rightarrow> DAGNode list \<Rightarrow> py_error + DAGNode list" where
  "force_sweep moved [] = Inr moved"
| "force_sweep moved (n # todo) =
     (case net_force n (moved @ n # todo) (0, 0) of
        Inl err \<Rightarrow> Inl err
      | Inr (force_x, force_y) \<Rightarrow>
          (case position n of
             None \<Rightarrow> Inl TypeError
           | Some p \<Rightarrow>
               force_sweep
                 (moved @ [n\<lparr>position := Some \<lparr>pos_x = pos_x p + force_x * 0.1,
                                                 pos_y = pos_y p + force_y * 0.1\<rparr>\<rparr>])
                 todo))"

fun force_iterate :: "nat \<Rightarrow> DAGNode list \<Rightarrow> py_error + DAGNode list" where
  "force_iterate 0 ns = Inr ns"
| "force_iterate (Suc k) ns =
     (case force_sweep [] ns of
        Inl err \<Rightarrow> Inl err
      | Inr ns' \<Rightarrow> force_iterate k ns')"

definition force_layout :: "(nat \<Rightarrow> real) \<Rightarrow> DAGElement \<Rightarrow> py_error + DAGElement" where
  "force_layout rand g =
     (case force_iterate 5 (init_random rand 0 (nodes g)) of
        Inl err \<Rightarrow> Inl err
      | Inr ns \<Rightarrow> Inr (g\<lparr>nodes := ns\<rparr>))"

subsection \<open>Dispatch\<close>

definition optimize_dag_layout :: "(nat \<Rightarrow> real) \<Rightarrow> DAGElement \<Rightarrow> string \<Rightarrow> py_error + DAGElement" where
  "optimize_dag_layout rand g layout_type =
     (if layout_type = ''hierarchical'' then hierarchical_layout g
      else if layout_type = ''circular'' then circular_layout g
      else if layout_type = ''force'' then force_layout rand g
      else Inr g)"

section \<open>Graph predicates and example graphs\<close>

text \<open>All edge endpoints are ids of nodes of the graph.\<close>

definition endpoints_known :: "DAGElement \<Rightarrow> bool" where
  "endpoints_known g =
     list_all (\<lambda>e. from_node e \<in> node_id ` set (nodes g) \<and> to_node e \<in> node_id ` set (nodes g))
       (edges g)"

definition mk_node :: "string \<Rightarrow> DAGNode" where
  "mk_node k = \<lparr>node_id = k, name = k, description = None, status = Some ''pending'',
     timestamp = None, result = None, position = None\<rparr>"

definition mk_edge :: "string \<Rightarrow> string \<Rightarrow> DAGEdge" where
  "mk_edge a b = \<lparr>from_node = a, to_node = b, label = None\<rparr>"

definition mk_graph :: "DAGNode list \<Rightarrow> DAGEdge list \<Rightarrow> DAGElement" where
  "mk_graph ns es = \<lparr>el_type = ''dag'', title = ''example'', dag_description = None,
     nodes = ns, edges = es, layout = Some ''top-bottom''\<rparr>"

definition chain_graph :: DAGElement where
  "chain_graph = mk_graph [mk_node ''a'', mk_node ''b'', mk_node ''c'']
     [mk_edge ''a'' ''b'', mk_edge ''b'' ''c'']"

definition self_loop_graph :: DAGElement where
  "self_loop_graph = mk_graph [mk_node ''a''] [mk_edge ''a'' ''a'']"

definition no_self_loops :: "DAGElement \<Rightarrow> bool" where
  "no_self_loops g = list_all (\<lambda>e. from_node e \<noteq> to_node e) (edges g)"

definition simple_graph :: "DAGElement \<Rightarrow> bool" where
  "simple_graph g \<longleftrightarrow>
     no_self_loops g \<and> distinct (map (\<lambda>e. (from_node e, to_node e)) (edges g))"


text \<open>Unique node ids and known edge endpoints: a graph in the sense of the data model.\<close>

definition well_formed :: "DAGElement \<Rightarrow> bool" where
  "well_formed g \<longleftrightarrow> distinct (map node_id (nodes g)) \<and> endpoints_known g"

text \<open>The edge relation, and the edges into a node whose source is not yet output.\<close>

definition edge_rel :: "DAGElement \<Rightarrow> (string \<times> string) set" where
  "edge_rel g = (\<lambda>e. (from_node e, to_node e)) ` set (edges g)"

definition pending :: "DAGEdge list \<Rightarrow> string set \<Rightarrow> string \<Rightarrow> nat" where
  "pending es out k = length (filter (\<lambda>e. to_node e = k \<and> from_node e \<notin> out) es)"

text \<open>The position of a node id in a sequence of nodes, and "comes strictly before".\<close>

definition position_of :: "DAGNode list \<Rightarrow> string \<Rightarrow> nat option" where
  "position_of xs k = list_index (map node_id xs) k"

definition precedes :: "DAGNode list \<Rightarrow> string \<Rightarrow> string \<Rightarrow> bool" where
  "precedes xs a b =
     (case position_of xs a of
        None \<Rightarrow> False
      | Some i \<Rightarrow> (case position_of xs b of None \<Rightarrow> False | Some j \<Rightarrow> i < j))"

text \<open>
  The invariant of the \<open>while queue:\<close> loop of \<open>get_topological_order\<close>: the output and
  the queue hold distinct nodes of the graph; the in-degree table counts, for every
  node, the edges into it whose source is not yet output; the nodes in the output or
  the queue are exactly those with no such edge; and every edge into an output node
  starts at a node output earlier.
\<close>

definition kahn_inv :: "DAGNode list \<Rightarrow> DAGEdge list \<Rightarrow> degrees \<Rightarrow> DAGNode list \<Rightarrow> DAGNode list
    \<Rightarrow> bool" where
  "kahn_inv ns es deg q topo \<longleftrightarrow>
     distinct (map node_id (topo @ q)) \<and> set (topo @ q) \<subseteq> set ns
     \<and> (\<forall>k\<in>node_id ` set ns.
          map_of deg k = Some (int (pending es (node_id ` set topo) k)))
     \<and> (\<forall>n\<in>set ns. n \<in> set (topo @ q) \<longleftrightarrow> pending es (node_id ` set topo) (node_id n) = 0)
     \<and> (\<forall>e\<in>set es. to_node e \<in> node_id ` set topo
          \<longrightarrow> precedes topo (from_node e) (to_node e))"

definition cycle_graph :: DAGElement where
  "cycle_graph = mk_graph [mk_node ''a'', mk_node ''b'']
     [mk_edge ''a'' ''b'', mk_edge ''b'' ''a'']"

definition tie_graph :: DAGElement where
  "tie_graph = mk_graph [mk_node ''a'', mk_node ''b'', mk_node ''c'']
     [mk_edge ''a'' ''c'', mk_edge ''a'' ''b'']"

definition single_graph :: DAGElement where
  "single_graph = mk_graph [mk_node ''a''] []"

definition zero_rand :: "nat \<Rightarrow> real" where
  "zero_rand k = 0"

text \<open>A node with its position field reset: what a layout must leave unchanged.\<close>

definition clear_position :: "DAGNode \<Rightarrow> DAGNode" where
  "clear_position n = n\<lparr>position := None\<rparr>"

definition dup_graph :: DAGElement where
  "dup_graph = mk_graph [mk_node ''a'', mk_node ''a'', mk_node ''b'', mk_node ''c'']
     [mk_edge ''a'' ''b'', mk_edge ''b'' ''c'', mk_edge ''c'' ''b'']"

definition dangling_graph :: DAGElement where
  "dangling_graph = mk_graph [mk_node ''a'', mk_node ''b'']
     [mk_edge ''a'' ''b'', mk_edge ''b'' ''a'', mk_edge ''a'' ''x'']"

section \<open>Properties\<close>















lemma map_of_key: "map_of al k = Some v \<Longrightarrow> k \<in> fst ` set al"
  by (metis map_of_eq_None_iff option.distinct(1))

lemma key_map_of: "k \<in> fst ` set al \<Longrightarrow> \<exists>v. map_of al k = Some v"
  by (cases "map_of al k") (simp_all add: map_of_eq_None_iff)

lemma sum_values_update:
  "map_of deg k = Some d \<Longrightarrow> sum_values (AList.update k (d + 1) deg) = sum_values deg + 1"
  by (induction deg) (auto simp: sum_values_def)

lemma sum_values_zero: "\<forall>kv\<in>set deg. snd kv = 0 \<Longrightarrow> sum_values deg = 0"
  by (induction deg) (auto simp: sum_values_def)

lemma update_zero_values:
  "\<forall>kv\<in>set deg. snd kv = (0::int) \<Longrightarrow> \<forall>kv\<in>set (AList.update k 0 deg). snd kv = 0"
  by (induction deg) auto

lemma init_stat_fold:
  fixes adj :: adjacency and ind outd :: degrees
  assumes "fold (\<lambda>n (adj, ind, outd).
         (AList.update (node_id n) [] adj, AList.update (node_id n) 0 ind,
          AList.update (node_id n) 0 outd)) ns (adj, ind, outd) = (adj', ind', outd')"
    and "\<forall>kv\<in>set ind. snd kv = 0" and "\<forall>kv\<in>set outd. snd kv = 0"
  shows "(\<forall>kv\<in>set ind'. snd kv = 0) \<and> (\<forall>kv\<in>set outd'. snd kv = 0)
    \<and> fst ` set adj' = fst ` set adj \<union> node_id ` set ns
    \<and> fst ` set ind' = fst ` set ind \<union> node_id ` set ns
    \<and> fst ` set outd' = fst ` set outd \<union> node_id ` set ns"
  using assms
proof (induction ns arbitrary: adj ind outd)
  case Nil
  then show ?case by simp
next
  case (Cons n ns)
  from Cons.prems(1) have
    "fold (\<lambda>n (adj, ind, outd).
         (AList.update (node_id n) [] adj, AList.update (node_id n) 0 ind,
          AList.update (node_id n) 0 outd)) ns
       (AList.update (node_id n) [] adj, AList.update (node_id n) 0 ind,
          AList.update (node_id n) 0 outd) = (adj', ind', outd')" by simp
  from Cons.IH [OF this update_zero_values [OF Cons.prems(2)] update_zero_values [OF Cons.prems(3)]]
  show ?case by (auto simp: AList.dom_update)
qed

lemma init_stat_tables_props:
  assumes "init_stat_tables ns = (adj, ind, outd)"
  shows "sum_values ind = 0" "sum_values outd = 0"
    "fst ` set adj = node_id ` set ns" "fst ` set ind = node_id ` set ns"
    "fst ` set outd = node_id ` set ns"
  using init_stat_fold [OF assms [unfolded init_stat_tables_def]]
  by (auto simp: sum_values_zero)

lemma count_edges_props:
  "count_edges es (adj, ind, outd) = Inr (adj', ind', outd') \<Longrightarrow>
     sum_values ind' = sum_values ind + int (length es)
     \<and> sum_values outd' = sum_values outd + int (length es)
     \<and> (\<forall>e\<in>set es. from_node e \<in> fst ` set adj \<and> to_node e \<in> fst ` set ind)"
proof (induction es arbitrary: adj ind outd)
  case Nil
  then show ?case by simp
next
  case (Cons e es)
  from Cons.prems obtain ts d d' where
    l: "map_of adj (from_node e) = Some ts" "map_of ind (to_node e) = Some d"
      "map_of outd (from_node e) = Some d'"
    by (auto simp: count_edge_def split: option.splits)
  let ?adj = "AList.update (from_node e) (ts @ [to_node e]) adj"
  let ?ind = "AList.update (to_node e) (d + 1) ind"
  let ?outd = "AList.update (from_node e) (d' + 1) outd"
  from Cons.prems l have "count_edges es (?adj, ?ind, ?outd) = Inr (adj', ind', outd')"
    by (simp add: count_edge_def)
  from Cons.IH [OF this]
  have ih: "sum_values ind' = sum_values ?ind + int (length es)"
    "sum_values outd' = sum_values ?outd + int (length es)"
    "\<forall>e\<in>set es. from_node e \<in> fst ` set ?adj \<and> to_node e \<in> fst ` set ?ind"
    by simp_all
  from l have k: "from_node e \<in> fst ` set adj" "to_node e \<in> fst ` set ind"
    by (auto dest: map_of_key)
  from k have "fst ` set ?adj = fst ` set adj" "fst ` set ?ind = fst ` set ind"
    by (auto simp: AList.dom_update)
  with ih k l show ?case
    by (simp add: sum_values_update)
qed

lemma count_edges_returns:
  fixes adj :: adjacency and ind outd :: degrees
  assumes "\<forall>e\<in>set es. from_node e \<in> fst ` set adj \<and> to_node e \<in> fst ` set ind
      \<and> from_node e \<in> fst ` set outd"
  shows "\<exists>s. count_edges es (adj, ind, outd) = Inr s"
  using assms
proof (induction es arbitrary: adj ind outd)
  case Nil
  then show ?case by simp
next
  case (Cons e es)
  from Cons.prems obtain ts d d' where
    l: "map_of adj (from_node e) = Some ts" "map_of ind (to_node e) = Some d"
      "map_of outd (from_node e) = Some d'"
    by (meson key_map_of list.set_intros(1))
  let ?adj = "AList.update (from_node e) (ts @ [to_node e]) adj"
  let ?ind = "AList.update (to_node e) (d + 1) ind"
  let ?outd = "AList.update (from_node e) (d' + 1) outd"
  from Cons.prems have "\<forall>e\<in>set es. from_node e \<in> fst ` set ?adj \<and> to_node e \<in> fst ` set ?ind
      \<and> from_node e \<in> fst ` set ?outd"
    by (auto simp: AList.dom_update)
  from Cons.IH [OF this] l show ?case by (simp add: count_edge_def)
qed

lemma get_dag_statistics_returns:
  "(\<exists>st. get_dag_statistics g = Inr st) \<longleftrightarrow> endpoints_known g"
proof -
  obtain adj ind outd where i: "init_stat_tables (nodes g) = (adj, ind, outd)"
    by (cases "init_stat_tables (nodes g)") auto
  note k = init_stat_tables_props(3-5) [OF i]
  show ?thesis
  proof
    assume "\<exists>st. get_dag_statistics g = Inr st"
    then obtain adj' ind' outd' where "count_edges (edges g) (adj, ind, outd) = Inr (adj', ind', outd')"
      by (auto simp: get_dag_statistics_def i split: sum.splits)
    from count_edges_props [OF this] k show "endpoints_known g"
      by (simp add: endpoints_known_def list_all_iff)
  next
    assume "endpoints_known g"
    with k have "\<forall>e\<in>set (edges g). from_node e \<in> fst ` set adj \<and> to_node e \<in> fst ` set ind
      \<and> from_node e \<in> fst ` set outd"
      by (simp add: endpoints_known_def list_all_iff)
    from count_edges_returns [OF this] show "\<exists>st. get_dag_statistics g = Inr st"
      by (auto simp: get_dag_statistics_def i Let_def split: sum.splits)
  qed
qed

lemma statistics_fields:
  assumes "get_dag_statistics g = Inr st"
  shows "total_nodes st = length (nodes g)" "total_edges st = length (edges g)"
    "density st = real (length (edges g))
       / real_of_int (max 1 (int (length (nodes g)) * (int (length (nodes g)) - 1)))"
    "avg_in_degree st =
       (if nodes g \<noteq> [] then real (length (edges g)) / real (length (nodes g)) else 0)"
    "avg_out_degree st =
       (if nodes g \<noteq> [] then real (length (edges g)) / real (length (nodes g)) else 0)"
proof -
  obtain adj ind outd where i: "init_stat_tables (nodes g) = (adj, ind, outd)"
    by (cases "init_stat_tables (nodes g)") auto
  from assms obtain adj' ind' outd' where
    c: "count_edges (edges g) (adj, ind, outd) = Inr (adj', ind', outd')"
    by (auto simp: get_dag_statistics_def i split: sum.splits)
  from count_edges_props [OF c] init_stat_tables_props(1,2) [OF i]
  have s: "sum_values ind' = int (length (edges g))" "sum_values outd' = int (length (edges g))"
    by simp_all
  from assms c i s show "total_nodes st = length (nodes g)" "total_edges st = length (edges g)"
    "density st = real (length (edges g))
       / real_of_int (max 1 (int (length (nodes g)) * (int (length (nodes g)) - 1)))"
    "avg_in_degree st =
       (if nodes g \<noteq> [] then real (length (edges g)) / real (length (nodes g)) else 0)"
    "avg_out_degree st =
       (if nodes g \<noteq> [] then real (length (edges g)) / real (length (nodes g)) else 0)"
    by (auto simp: get_dag_statistics_def Let_def)
qed

lemma card_off_diagonal:
  assumes "finite A"
  shows "card (A \<times> A - Id) = card A * (card A - 1)"
proof -
  have "A \<times> A - Id = (SIGMA x:A. A - {x})" by auto
  moreover from assms have "card (SIGMA x:A. A - {x}) = (\<Sum>x\<in>A. card (A - {x}))"
    by (intro card_SigmaI) auto
  moreover from assms have "(\<Sum>x\<in>A. card (A - {x})) = (\<Sum>x\<in>A. card A - 1)"
    by (intro sum.cong) auto
  ultimately show ?thesis by simp
qed

lemma simple_edge_bound:
  assumes s: "simple_graph g" and k: "endpoints_known g"
  shows "length (edges g) \<le> length (nodes g) * (length (nodes g) - 1)"
proof -
  let ?P = "map (\<lambda>e. (from_node e, to_node e)) (edges g)"
  let ?A = "node_id ` set (nodes g)"
  from s have "distinct ?P" by (simp add: simple_graph_def)
  from distinct_card [OF this] have "length (edges g) = card (set ?P)"
    by simp
  moreover from s k have "set ?P \<subseteq> ?A \<times> ?A - Id"
    by (auto simp: simple_graph_def no_self_loops_def endpoints_known_def list_all_iff)
  then have "card (set ?P) \<le> card (?A \<times> ?A - Id)"
    by (intro card_mono) auto
  moreover have "card (?A \<times> ?A - Id) = card ?A * (card ?A - 1)"
    by (rule card_off_diagonal) simp
  moreover have "card ?A \<le> length (nodes g)"
    by (metis card_image_le card_length le_trans List.finite_set)
  then have "card ?A * (card ?A - 1) \<le> length (nodes g) * (length (nodes g) - 1)"
    by (intro mult_le_mono) auto
  ultimately show ?thesis by simp
qed

lemma max_pairs_ge2:
  assumes "2 \<le> (n::nat)"
  shows "max 1 (int n * (int n - 1)) = int (n * (n - 1))"
proof -
  from assms obtain k where k: "n = Suc (Suc k)"
    by (cases n; cases "n - 1") auto
  have e: "int n * (int n - 1) = int (n * (n - 1))"
    unfolding k by (simp add: algebra_simps)
  have "(1::int) \<le> int (n * (n - 1))" unfolding k by simp
  then have "max 1 (int (n * (n - 1))) = int (n * (n - 1))"
    by (rule max_absorb2)
  then show ?thesis by (simp only: e)
qed

lemma max_pairs_le1:
  assumes "(n::nat) \<le> 1"
  shows "max 1 (int n * (int n - 1)) = 1"
proof -
  from assms have "n = 0 \<or> n = 1" by arith
  then show ?thesis by auto
qed

text \<open>
  Claim C4, as the code has it: whenever \<open>get_dag_statistics\<close> returns, the density is
  the number of edges divided by \<open>max(1, n * (n - 1))\<close>.  For \<open>n \<ge> 2\<close> nodes that is
  \<open>edges / (n * (n - 1))\<close>; for \<open>n \<le> 1\<close> it is the number of edges itself, which is
  zero when the graph has no self-loop; for a simple graph (no self-loop, no repeated
  edge) it lies between 0 and 1.
\<close>

theorem density_value:
  assumes "get_dag_statistics g = Inr st"
  shows "density st = real (length (edges g))
           / real_of_int (max 1 (int (length (nodes g)) * (int (length (nodes g)) - 1)))
    \<and> (2 \<le> length (nodes g) \<longrightarrow>
          density st = real (length (edges g)) / real (length (nodes g) * (length (nodes g) - 1)))
    \<and> (length (nodes g) \<le> 1 \<longrightarrow> density st = real (length (edges g)))
    \<and> (length (nodes g) \<le> 1 \<and> no_self_loops g \<longrightarrow> density st = 0)
    \<and> (simple_graph g \<longrightarrow> 0 \<le> density st \<and> density st \<le> 1)"
proof -
  let ?n = "length (nodes g)" and ?m = "length (edges g)"
  note d = statistics_fields(3) [OF assms]
  from assms have k: "endpoints_known g"
    using get_dag_statistics_returns by blast
  have two: "density st = real ?m / real (?n * (?n - 1))" if "2 \<le> ?n"
    using d by (simp only: max_pairs_ge2 [OF that] of_int_of_nat_eq)
  have low: "density st = real ?m" if "?n \<le> 1"
    using d by (simp only: max_pairs_le1 [OF that] of_int_1 div_by_1)
  have none: "?m = 0" if "?n \<le> 1" "no_self_loops g"
  proof (rule ccontr)
    assume "?m \<noteq> 0"
    then obtain e where e: "e \<in> set (edges g)" by (cases "edges g") auto
    with k have "from_node e \<in> node_id ` set (nodes g)" "to_node e \<in> node_id ` set (nodes g)"
      by (simp_all add: endpoints_known_def list_all_iff)
    moreover from that(1) have "nodes g = [] \<or> (\<exists>n. nodes g = [n])"
      by (cases "nodes g") auto
    ultimately have "from_node e = to_node e" by auto
    with that(2) e show False by (simp add: no_self_loops_def list_all_iff)
  qed
  have zero: "density st = 0" if "?n \<le> 1 \<and> no_self_loops g"
  proof -
    from that have "?m = 0" by (intro none) simp_all
    moreover from that have "density st = real ?m" by (intro low) simp
    ultimately show ?thesis by simp
  qed
  have simple: "0 \<le> density st \<and> density st \<le> 1" if "simple_graph g"
  proof (cases "2 \<le> ?n")
    case True
    define p where "p = real (?n * (?n - 1))"
    from simple_edge_bound [OF that k] have le: "real ?m \<le> p"
      unfolding p_def by (simp only: of_nat_le_iff)
    from True obtain j where "?n = Suc (Suc j)"
      by (cases ?n; cases "?n - 1") auto
    then have "0 < ?n * (?n - 1)" by simp
    then have pos: "0 < p" unfolding p_def by (simp only: of_nat_0_less_iff)
    from le pos have "0 \<le> real ?m / p \<and> real ?m / p \<le> 1" by simp
    then show ?thesis unfolding two [OF True] p_def .
  next
    case False
    then have l: "?n \<le> 1" by simp
    from that have "no_self_loops g" by (simp add: simple_graph_def)
    with l have "density st = 0" by (intro zero) simp
    then show ?thesis by simp
  qed
  show ?thesis
  proof (intro conjI impI)
    show "density st = real ?m / real_of_int (max 1 (int ?n * (int ?n - 1)))" by (rule d)
  next
    assume "2 \<le> ?n"
    then show "density st = real ?m / real (?n * (?n - 1))" by (rule two)
  next
    assume "?n \<le> 1"
    then show "density st = real ?m" by (rule low)
  next
    assume "?n \<le> 1 \<and> no_self_loops g"
    then show "density st = 0" by (rule zero)
  next
    assume "simple_graph g"
    then show "0 \<le> density st" by (simp add: simple)
  next
    assume "simple_graph g"
    then show "density st \<le> 1" by (simp add: simple)
  qed
qed

theorem density_value_witness:
  "\<exists>st. get_dag_statistics chain_graph = Inr st \<and> simple_graph chain_graph
     \<and> density st = 1 / 3 \<and> 0 \<le> density st \<and> density st \<le> 1"
proof -
  have "endpoints_known chain_graph"
    by (simp add: endpoints_known_def chain_graph_def mk_graph_def mk_node_def mk_edge_def)
  then obtain st where st: "get_dag_statistics chain_graph = Inr st"
    using get_dag_statistics_returns by blast
  have s: "simple_graph chain_graph"
    by (simp add: simple_graph_def no_self_loops_def chain_graph_def mk_graph_def mk_edge_def)
  have n: "length (nodes chain_graph) = 3" "length (edges chain_graph) = 2"
    by (simp_all add: chain_graph_def mk_graph_def)
  from density_value [OF st] s n have "density st = 1 / 3 \<and> 0 \<le> density st \<and> density st \<le> 1"
    by simp
  with st s show ?thesis by blast
qed

text \<open>
  One node with an edge to itself: the graph has one node and its density is 1, not 0.
\<close>

theorem density_self_loop_counterexample:
  "length (nodes self_loop_graph) = 1
     \<and> map_sum id density (get_dag_statistics self_loop_graph) = Inr 1"
  by (simp add: get_dag_statistics_def self_loop_graph_def mk_graph_def mk_node_def mk_edge_def
      init_stat_tables_def count_edge_def Let_def)

text \<open>
  Claim C10: in the record that \<open>get_dag_statistics\<close> returns, the mean in-degree and
  the mean out-degree are equal; for a graph with at least one node both are the number
  of edges divided by the number of nodes, and for the empty graph both are 0.
\<close>

theorem degree_means_agree:
  assumes "get_dag_statistics g = Inr st"
  shows "avg_in_degree st = avg_out_degree st
    \<and> (nodes g \<noteq> [] \<longrightarrow>
          avg_in_degree st = real (total_edges st) / real (total_nodes st)
          \<and> avg_out_degree st = real (total_edges st) / real (total_nodes st))
    \<and> (nodes g = [] \<longrightarrow> avg_in_degree st = 0 \<and> avg_out_degree st = 0)"
  using statistics_fields [OF assms] by simp

theorem degree_means_agree_witness:
  "\<exists>st st'. get_dag_statistics chain_graph = Inr st
     \<and> avg_in_degree st = 2 / 3 \<and> avg_out_degree st = 2 / 3
     \<and> get_dag_statistics (mk_graph [] []) = Inr st'
     \<and> avg_in_degree st' = 0 \<and> avg_out_degree st' = 0"
proof -
  have "endpoints_known chain_graph"
    by (simp add: endpoints_known_def chain_graph_def mk_graph_def mk_node_def mk_edge_def)
  then obtain st where st: "get_dag_statistics chain_graph = Inr st"
    using get_dag_statistics_returns by blast
  have "endpoints_known (mk_graph [] [])"
    by (simp add: endpoints_known_def mk_graph_def)
  then obtain st' where st': "get_dag_statistics (mk_graph [] []) = Inr st'"
    using get_dag_statistics_returns by blast
  have n: "length (nodes chain_graph) = 3" "length (edges chain_graph) = 2"
    "nodes chain_graph \<noteq> []" "nodes (mk_graph [] []) = []"
    by (simp_all add: chain_graph_def mk_graph_def)
  from degree_means_agree [OF st] n statistics_fields(1,2) [OF st]
  have "avg_in_degree st = 2 / 3 \<and> avg_out_degree st = 2 / 3" by simp
  moreover from degree_means_agree [OF st'] n
  have "avg_in_degree st' = 0 \<and> avg_out_degree st' = 0" by simp
  ultimately show ?thesis using st st' by blast
qed




lemma escape_Nil: "escape_mermaid_text [] = []"
  by (simp add: escape_mermaid_text_def special_chars_def str_replace_def)



lemma escape_plain:
  assumes "c \<notin> set special_chars"
  shows "escape_mermaid_text [c] = [c]"
  using assms by (simp add: escape_mermaid_text_def special_chars_def str_replace_def)





lemma list_index_None: "list_index xs x = None \<longleftrightarrow> x \<notin> set xs"
  by (induction xs) auto

lemma list_index_Some: "list_index xs x = Some i \<Longrightarrow> i < length xs \<and> xs ! i = x"
  by (induction xs arbitrary: i) (auto split: if_splits)

lemma list_index_append:
  "list_index (xs @ ys) x =
     (case list_index xs x of
        Some i \<Rightarrow> Some i
      | None \<Rightarrow> map_option (\<lambda>j. length xs + j) (list_index ys x))"
proof (induction xs)
  case Nil
  show ?case by (cases "list_index ys x") simp_all
next
  case (Cons a xs)
  then show ?case by (cases "list_index ys x"; cases "list_index xs x") auto
qed

lemma precedes_append:
  "precedes xs a b \<Longrightarrow> precedes (xs @ ys) a b"
  by (auto simp: precedes_def position_of_def list_index_append split: option.splits)

lemma precedes_snoc:
  assumes "a \<in> node_id ` set xs" and "node_id n \<notin> node_id ` set xs"
  shows "precedes (xs @ [n]) a (node_id n)"
proof -
  from assms(1) obtain i where i: "list_index (map node_id xs) a = Some i"
    by (cases "list_index (map node_id xs) a") (auto simp: list_index_None)
  from assms(2) have "list_index (map node_id xs) (node_id n) = None"
    by (simp add: list_index_None)
  with i list_index_Some [OF i] show ?thesis
    by (simp add: precedes_def position_of_def list_index_append)
qed

lemma precedes_lt:
  "precedes xs a b \<Longrightarrow>
     \<exists>i j. position_of xs a = Some i \<and> position_of xs b = Some j \<and> i < j"
  by (auto simp: precedes_def split: option.splits)

subsection \<open>The tables after the build phase\<close>

lemma init_tables_fold:
  fixes adj :: adjacency and deg :: degrees
  assumes "fold (\<lambda>n (adj, deg). (AList.update (node_id n) [] adj, AList.update (node_id n) 0 deg))
      ns (adj, deg) = (adj', deg')"
  shows "map_of adj' k = (if k \<in> node_id ` set ns then Some [] else map_of adj k)
    \<and> map_of deg' k = (if k \<in> node_id ` set ns then Some 0 else map_of deg k)
    \<and> (distinct (map fst deg @ map node_id ns) \<longrightarrow> map fst deg' = map fst deg @ map node_id ns)"
  using assms
proof (induction ns arbitrary: adj deg)
  case Nil
  then show ?case by simp
next
  case (Cons n ns)
  let ?adj = "AList.update (node_id n) [] adj" and ?deg = "AList.update (node_id n) 0 deg"
  from Cons.prems have "fold (\<lambda>n (adj, deg).
      (AList.update (node_id n) [] adj, AList.update (node_id n) 0 deg)) ns (?adj, ?deg) = (adj', deg')"
    by simp
  note ih = Cons.IH [OF this]
  have a: "map_of adj' k = (if k \<in> node_id ` set (n # ns) then Some [] else map_of adj k)"
    using ih by (simp add: AList.update_conv')
  have d: "map_of deg' k = (if k \<in> node_id ` set (n # ns) then Some 0 else map_of deg k)"
    using ih by (simp add: AList.update_conv')
  have o: "map fst deg' = map fst deg @ map node_id (n # ns)"
    if "distinct (map fst deg @ map node_id (n # ns))"
  proof -
    from that have "node_id n \<notin> set (map fst deg)" by auto
    then have "map fst ?deg = map fst deg @ [node_id n]"
      by (simp add: AList.update_keys)
    moreover from that have "distinct ((map fst deg @ [node_id n]) @ map node_id ns)" by simp
    ultimately show ?thesis using ih by simp
  qed
  from a d o show ?case by blast
qed

lemma init_tables_props:
  assumes "init_tables ns = (adj, deg)"
  shows "map_of adj k = (if k \<in> node_id ` set ns then Some [] else None)"
    and "map_of deg k = (if k \<in> node_id ` set ns then Some 0 else None)"
    and "distinct (map node_id ns) \<Longrightarrow> map fst deg = map node_id ns"
  using init_tables_fold [OF assms [unfolded init_tables_def], of k] by simp_all

lemma add_edges_props:
  fixes adj :: adjacency and deg :: degrees
  assumes "add_edges es (adj, deg) = Inr (adj', deg')"
  shows "map_of adj' k
      = map_option (\<lambda>ts. ts @ map to_node (filter (\<lambda>e. from_node e = k) es)) (map_of adj k)
    \<and> map_of deg' k
      = map_option (\<lambda>d. d + int (length (filter (\<lambda>e. to_node e = k) es))) (map_of deg k)
    \<and> map fst deg' = map fst deg
    \<and> (\<forall>e\<in>set es. map_of adj (from_node e) \<noteq> None \<and> map_of deg (to_node e) \<noteq> None)"
  using assms
proof (induction es arbitrary: adj deg)
  case Nil
  then show ?case by (simp add: option.map_ident)
next
  case (Cons e es)
  from Cons.prems obtain ts d where
    l: "map_of adj (from_node e) = Some ts" "map_of deg (to_node e) = Some d"
    by (auto simp: add_edge_def split: option.splits)
  let ?adj = "AList.update (from_node e) (ts @ [to_node e]) adj"
  let ?deg = "AList.update (to_node e) (d + 1) deg"
  from Cons.prems l have "add_edges es (?adj, ?deg) = Inr (adj', deg')"
    by (simp add: add_edge_def)
  note ih = Cons.IH [OF this]
  have a: "map_of adj' k
      = map_option (\<lambda>ts. ts @ map to_node (filter (\<lambda>e. from_node e = k) (e # es))) (map_of adj k)"
    using ih l by (simp add: AList.update_conv')
  have d: "map_of deg' k
      = map_option (\<lambda>d. d + int (length (filter (\<lambda>e. to_node e = k) (e # es)))) (map_of deg k)"
    using ih l by (simp add: AList.update_conv')
  from l have "to_node e \<in> set (map fst deg)"
    by (metis map_of_eq_None_iff option.distinct(1) set_map)
  then have "map fst ?deg = map fst deg" by (simp add: AList.update_keys)
  with ih have o: "map fst deg' = map fst deg" by simp
  have n: "\<forall>x\<in>set (e # es). map_of adj (from_node x) \<noteq> None \<and> map_of deg (to_node x) \<noteq> None"
  proof
    fix x assume "x \<in> set (e # es)"
    then consider "x = e" | "x \<in> set es" by auto
    then show "map_of adj (from_node x) \<noteq> None \<and> map_of deg (to_node x) \<noteq> None"
    proof cases
      case 1
      with l show ?thesis by simp
    next
      case 2
      with ih have "map_of ?adj (from_node x) \<noteq> None \<and> map_of ?deg (to_node x) \<noteq> None"
        by blast
      with l show ?thesis by (auto simp: AList.update_conv' split: if_splits)
    qed
  qed
  from a d o n show ?case by blast
qed

lemma add_edges_returns:
  fixes adj :: adjacency and deg :: degrees
  assumes "\<forall>e\<in>set es. map_of adj (from_node e) \<noteq> None \<and> map_of deg (to_node e) \<noteq> None"
  shows "\<exists>adj' deg'. add_edges es (adj, deg) = Inr (adj', deg')"
  using assms
proof (induction es arbitrary: adj deg)
  case Nil
  then show ?case by simp
next
  case (Cons e es)
  from Cons.prems obtain ts d where
    l: "map_of adj (from_node e) = Some ts" "map_of deg (to_node e) = Some d"
    by auto
  let ?adj = "AList.update (from_node e) (ts @ [to_node e]) adj"
  let ?deg = "AList.update (to_node e) (d + 1) deg"
  from Cons.prems
  have "\<forall>x\<in>set es. map_of ?adj (from_node x) \<noteq> None \<and> map_of ?deg (to_node x) \<noteq> None"
    by (simp add: AList.update_conv')
  from Cons.IH [OF this] l show ?case by (simp add: add_edge_def)
qed

lemma build_graph_props:
  assumes "build_graph ns es = Inr (adj, deg)"
  shows "k \<in> node_id ` set ns \<Longrightarrow>
      map_of adj k = Some (map to_node (filter (\<lambda>e. from_node e = k) es))"
    and "map_of deg k = (if k \<in> node_id ` set ns
      then Some (int (length (filter (\<lambda>e. to_node e = k) es))) else None)"
    and "\<forall>e\<in>set es. from_node e \<in> node_id ` set ns \<and> to_node e \<in> node_id ` set ns"
    and "distinct (map node_id ns) \<Longrightarrow> map fst deg = map node_id ns"
proof -
  obtain adj0 deg0 where i: "init_tables ns = (adj0, deg0)"
    by (cases "init_tables ns") auto
  from assms have a: "add_edges es (adj0, deg0) = Inr (adj, deg)"
    by (simp add: build_graph_def i)
  note p = add_edges_props [OF a]
  note q = init_tables_props [OF i]
  show "map_of adj k = Some (map to_node (filter (\<lambda>e. from_node e = k) es))"
    if "k \<in> node_id ` set ns"
    using p [of k] q(1) [of k] that by simp
  show "map_of deg k = (if k \<in> node_id ` set ns
      then Some (int (length (filter (\<lambda>e. to_node e = k) es))) else None)"
    using p [of k] q(2) [of k] by simp
  show "\<forall>e\<in>set es. from_node e \<in> node_id ` set ns \<and> to_node e \<in> node_id ` set ns"
  proof
    fix e assume "e \<in> set es"
    with p [of k] have "map_of adj0 (from_node e) \<noteq> None" "map_of deg0 (to_node e) \<noteq> None"
      by blast+
    then show "from_node e \<in> node_id ` set ns \<and> to_node e \<in> node_id ` set ns"
      using q(1) [of "from_node e"] q(2) [of "to_node e"] by (auto split: if_splits)
  qed
  show "map fst deg = map node_id ns" if "distinct (map node_id ns)"
    using p [of k] q(3) [OF that] by simp
qed

lemma build_graph_returns:
  assumes "\<forall>e\<in>set es. from_node e \<in> node_id ` set ns \<and> to_node e \<in> node_id ` set ns"
  shows "\<exists>adj deg. build_graph ns es = Inr (adj, deg)"
proof -
  obtain adj0 deg0 where i: "init_tables ns = (adj0, deg0)"
    by (cases "init_tables ns") auto
  note q = init_tables_props [OF i]
  from assms
  have "\<forall>e\<in>set es. map_of adj0 (from_node e) \<noteq> None \<and> map_of deg0 (to_node e) \<noteq> None"
    by (simp add: q(1) q(2))
  from add_edges_returns [OF this] show ?thesis by (simp add: build_graph_def i)
qed

subsection \<open>One round of the inner loop\<close>

lemma node_id_unique:
  "distinct (map node_id ns) \<Longrightarrow> n \<in> set ns \<Longrightarrow> n' \<in> set ns \<Longrightarrow> node_id n = node_id n'
     \<Longrightarrow> n = n'"
  by (meson distinct_map inj_onD)

lemma find_node_Some:
  "k \<in> node_id ` set ns \<Longrightarrow> \<exists>n. find_node ns k = Some n \<and> n \<in> set ns \<and> node_id n = k"
  unfolding find_node_def by (induction ns) auto

lemma count_list_pos: "0 < count_list xs x \<longleftrightarrow> x \<in> set xs"
  by (metis count_list_0_iff gr0I less_numeral_extra(3))

lemma relax_spec:
  assumes dist: "distinct (map node_id ns)"
    and sub: "set vs \<subseteq> node_id ` set ns"
    and enough: "\<forall>k\<in>node_id ` set ns. \<exists>d. map_of deg k = Some d \<and> int (count_list vs k) \<le> d"
  shows "\<exists>deg' new. relax ns vs (deg, q) = Inr (deg', q @ new)
    \<and> (\<forall>k\<in>node_id ` set ns.
          map_of deg' k = map_option (\<lambda>d. d - int (count_list vs k)) (map_of deg k))
    \<and> distinct (map node_id new)
    \<and> set new = {n \<in> set ns. node_id n \<in> set vs
          \<and> map_of deg (node_id n) = Some (int (count_list vs (node_id n)))}"
  using sub enough
proof (induction vs arbitrary: deg q)
  case Nil
  have "relax ns [] (deg, q) = Inr (deg, q @ [])" by simp
  moreover have "\<forall>k\<in>node_id ` set ns.
      map_of deg k = map_option (\<lambda>d. d - int (count_list [] k)) (map_of deg k)"
    by (simp add: option.map_ident)
  ultimately show ?case by (intro exI [of _ deg] exI [of _ "[]"]) simp
next
  case (Cons v vs)
  from Cons.prems have v: "v \<in> node_id ` set ns" by simp
  with Cons.prems(2) obtain d where d: "map_of deg v = Some d"
    and dv: "int (count_list (v # vs) v) \<le> d" by blast
  from dv have d1: "1 + int (count_list vs v) \<le> d" by simp
  let ?deg = "AList.update v (d - 1) deg"
  have m: "map_of ?deg k = (if k = v then Some (d - 1) else map_of deg k)" for k
    by (simp add: AList.update_conv')
  from Cons.prems(1) have sub': "set vs \<subseteq> node_id ` set ns" by simp
  have enough': "\<forall>k\<in>node_id ` set ns. \<exists>d'. map_of ?deg k = Some d' \<and> int (count_list vs k) \<le> d'"
  proof
    fix k assume k: "k \<in> node_id ` set ns"
    show "\<exists>d'. map_of ?deg k = Some d' \<and> int (count_list vs k) \<le> d'"
    proof (cases "k = v")
      case True
      with d1 m show ?thesis by simp
    next
      case False
      from Cons.prems(2) k obtain d' where "map_of deg k = Some d'"
        "int (count_list (v # vs) k) \<le> d'" by blast
      with False m show ?thesis by simp
    qed
  qed
  have upd: "map_option (\<lambda>x. x - int (count_list vs k)) (map_of ?deg k)
      = map_option (\<lambda>x. x - int (count_list (v # vs) k)) (map_of deg k)" for k
    using d by (simp add: m)
  show ?case
  proof (cases "d - 1 = 0")
    case True
    then have dd: "d = 1" by simp
    with d1 have "count_list vs v = 0" by simp
    then have nv: "v \<notin> set vs" by (simp add: count_list_0_iff)
    from find_node_Some [OF v] obtain n where
      n: "find_node ns v = Some n" "n \<in> set ns" "node_id n = v" by blast
    from Cons.IH [OF sub' enough', of "q @ [n]"] obtain deg' new where
      r: "relax ns vs (?deg, q @ [n]) = Inr (deg', (q @ [n]) @ new)"
      and g: "\<forall>k\<in>node_id ` set ns.
          map_of deg' k = map_option (\<lambda>x. x - int (count_list vs k)) (map_of ?deg k)"
      and dn: "distinct (map node_id new)"
      and sn: "set new = {n \<in> set ns. node_id n \<in> set vs
          \<and> map_of ?deg (node_id n) = Some (int (count_list vs (node_id n)))}"
      by blast
    have "relax ns (v # vs) (deg, q) = relax ns vs (?deg, q @ [n])"
      by (simp add: d dd n(1))
    with r have 1: "relax ns (v # vs) (deg, q) = Inr (deg', q @ (n # new))"
      by simp
    from g have 2: "\<forall>k\<in>node_id ` set ns.
        map_of deg' k = map_option (\<lambda>x. x - int (count_list (v # vs) k)) (map_of deg k)"
      by (simp only: upd)
    have snD: "x \<in> set ns \<and> node_id x \<in> set vs
        \<and> map_of ?deg (node_id x) = Some (int (count_list vs (node_id x)))"
      if "x \<in> set new" for x
      using that unfolding sn by simp
    have snI: "x \<in> set new"
      if "x \<in> set ns" "node_id x \<in> set vs"
        "map_of ?deg (node_id x) = Some (int (count_list vs (node_id x)))" for x
      using that unfolding sn by simp
    have "node_id n \<notin> node_id ` set new"
    proof
      assume "node_id n \<in> node_id ` set new"
      then obtain x where "x \<in> set new" "node_id x = node_id n" by auto
      with snD [of x] n(3) nv show False by simp
    qed
    with dn have 3: "distinct (map node_id (n # new))" by simp
    have 4: "set (n # new) = {n \<in> set ns. node_id n \<in> set (v # vs)
          \<and> map_of deg (node_id n) = Some (int (count_list (v # vs) (node_id n)))}"
      (is "?L = ?R")
    proof (intro set_eqI iffI)
      fix x assume "x \<in> ?L"
      then consider "x = n" | "x \<in> set new" by auto
      then show "x \<in> ?R"
      proof cases
        case 1
        with n d dd nv show ?thesis by simp
      next
        case 2
        from snD [OF 2] have x: "x \<in> set ns" "node_id x \<in> set vs"
          "map_of ?deg (node_id x) = Some (int (count_list vs (node_id x)))" by simp_all
        with nv have ne: "node_id x \<noteq> v" by auto
        with x(3) have "map_of deg (node_id x) = Some (int (count_list (v # vs) (node_id x)))"
          by (simp add: m)
        with x(1,2) show ?thesis by simp
      qed
    next
      fix x assume "x \<in> ?R"
      then have x: "x \<in> set ns" "node_id x \<in> set (v # vs)"
        "map_of deg (node_id x) = Some (int (count_list (v # vs) (node_id x)))" by auto
      show "x \<in> ?L"
      proof (cases "node_id x = v")
        case True
        with x(1) n dist have "x = n" by (auto intro: node_id_unique)
        then show ?thesis by simp
      next
        case False
        with x have "node_id x \<in> set vs"
          "map_of ?deg (node_id x) = Some (int (count_list vs (node_id x)))"
          by (simp_all add: m)
        from snI [OF x(1) this] show ?thesis by simp
      qed
    qed
    from 1 2 3 4 show ?thesis by blast
  next
    case False
    from Cons.IH [OF sub' enough', of q] obtain deg' new where
      r: "relax ns vs (?deg, q) = Inr (deg', q @ new)"
      and g: "\<forall>k\<in>node_id ` set ns.
          map_of deg' k = map_option (\<lambda>x. x - int (count_list vs k)) (map_of ?deg k)"
      and dn: "distinct (map node_id new)"
      and sn: "set new = {n \<in> set ns. node_id n \<in> set vs
          \<and> map_of ?deg (node_id n) = Some (int (count_list vs (node_id n)))}"
      by blast
    have snD: "x \<in> set ns \<and> node_id x \<in> set vs
        \<and> map_of ?deg (node_id x) = Some (int (count_list vs (node_id x)))"
      if "x \<in> set new" for x
      using that unfolding sn by simp
    have snI: "x \<in> set new"
      if "x \<in> set ns" "node_id x \<in> set vs"
        "map_of ?deg (node_id x) = Some (int (count_list vs (node_id x)))" for x
      using that unfolding sn by simp
    have "relax ns (v # vs) (deg, q) = relax ns vs (?deg, q)"
      using False by (simp add: d)
    with r have 1: "relax ns (v # vs) (deg, q) = Inr (deg', q @ new)"
      by simp
    from g have 2: "\<forall>k\<in>node_id ` set ns.
        map_of deg' k = map_option (\<lambda>x. x - int (count_list (v # vs) k)) (map_of deg k)"
      by (simp only: upd)
    have 4: "set new = {n \<in> set ns. node_id n \<in> set (v # vs)
          \<and> map_of deg (node_id n) = Some (int (count_list (v # vs) (node_id n)))}"
      (is "?L = ?R")
    proof (intro set_eqI iffI)
      fix x assume "x \<in> ?L"
      from snD [OF this] have x: "x \<in> set ns" "node_id x \<in> set vs"
        "map_of ?deg (node_id x) = Some (int (count_list vs (node_id x)))" by simp_all
      have "map_of deg (node_id x) = Some (int (count_list (v # vs) (node_id x)))"
      proof (cases "node_id x = v")
        case True
        with x(3) have "d - 1 = int (count_list vs v)" by (simp add: m)
        with True d show ?thesis by simp
      next
        case False
        with x(3) show ?thesis by (simp add: m)
      qed
      with x(1,2) show "x \<in> ?R" by simp
    next
      fix x assume "x \<in> ?R"
      then have x: "x \<in> set ns" "node_id x \<in> set (v # vs)"
        "map_of deg (node_id x) = Some (int (count_list (v # vs) (node_id x)))" by auto
      show "x \<in> ?L"
      proof (cases "node_id x = v")
        case True
        with x d have "d = 1 + int (count_list vs v)" by simp
        with False have "0 < count_list vs v" by simp
        then have "v \<in> set vs" by (simp add: count_list_pos)
        moreover from \<open>d = 1 + int (count_list vs v)\<close>
        have "map_of ?deg v = Some (int (count_list vs v))"
          by (simp add: AList.update_conv')
        ultimately show ?thesis using snI [OF x(1)] True by simp
      next
        case False
        with x have "node_id x \<in> set vs"
          "map_of ?deg (node_id x) = Some (int (count_list vs (node_id x)))"
          by (simp_all add: m)
        from snI [OF x(1) this] show ?thesis .
      qed
    qed
    from 1 2 dn 4 show ?thesis by blast
  qed
qed

lemma count_list_map_filter:
  "count_list (map f (filter P xs)) k = length (filter (\<lambda>x. f x = k \<and> P x) xs)"
  by (induction xs) auto

lemma pending_insert:
  "c \<notin> T \<Longrightarrow> pending es T k
     = pending es (insert c T) k
       + count_list (map to_node (filter (\<lambda>e. from_node e = c) es)) k"
  unfolding pending_def count_list_map_filter by (induction es) auto

lemma pending_zero:
  "pending es T k = 0 \<Longrightarrow> e \<in> set es \<Longrightarrow> to_node e = k \<Longrightarrow> from_node e \<in> T"
  unfolding pending_def by (auto simp: filter_empty_conv)

lemma pending_empty: "pending es {} k = length (filter (\<lambda>e. to_node e = k) es)"
  by (simp add: pending_def)

lemma kahn_step:
  assumes dist: "distinct (map node_id ns)"
    and ends: "\<forall>e\<in>set es. from_node e \<in> node_id ` set ns \<and> to_node e \<in> node_id ` set ns"
    and vs: "vs = map to_node (filter (\<lambda>e. from_node e = node_id cur) es)"
    and inv: "kahn_inv ns es deg (cur # q) topo"
  shows "\<exists>deg' new. relax ns vs (deg, q) = Inr (deg', q @ new)
    \<and> kahn_inv ns es deg' (q @ new) (topo @ [cur])"
proof -
  let ?T = "node_id ` set topo" and ?c = "node_id cur"
  let ?T' = "node_id ` set (topo @ [cur])"
  from inv have d0: "distinct (map node_id (topo @ cur # q))"
    and s0: "set (topo @ cur # q) \<subseteq> set ns"
    and deg: "\<And>k. k \<in> node_id ` set ns \<Longrightarrow> map_of deg k = Some (int (pending es ?T k))"
    and mem: "\<And>n. n \<in> set ns \<Longrightarrow> n \<in> set (topo @ cur # q) \<longleftrightarrow> pending es ?T (node_id n) = 0"
    and ord: "\<And>e. e \<in> set es \<Longrightarrow> to_node e \<in> ?T \<Longrightarrow> precedes topo (from_node e) (to_node e)"
    unfolding kahn_inv_def by blast+
  from d0 have cT: "?c \<notin> ?T" by auto
  have T': "?T' = insert ?c ?T" by auto
  have split: "pending es ?T k = pending es ?T' k + count_list vs k" for k
    unfolding T' vs by (rule pending_insert [OF cT])
  from ends have sub: "set vs \<subseteq> node_id ` set ns" unfolding vs by auto
  have enough: "\<forall>k\<in>node_id ` set ns. \<exists>d. map_of deg k = Some d \<and> int (count_list vs k) \<le> d"
  proof
    fix k assume "k \<in> node_id ` set ns"
    from deg [OF this] split [of k]
    show "\<exists>d. map_of deg k = Some d \<and> int (count_list vs k) \<le> d" by simp
  qed
  from relax_spec [OF dist sub enough, of q] obtain deg' new where
    r: "relax ns vs (deg, q) = Inr (deg', q @ new)"
    and g: "\<And>k. k \<in> node_id ` set ns \<Longrightarrow>
        map_of deg' k = map_option (\<lambda>d. d - int (count_list vs k)) (map_of deg k)"
    and dn: "distinct (map node_id new)"
    and sn: "set new = {n \<in> set ns. node_id n \<in> set vs
        \<and> map_of deg (node_id n) = Some (int (count_list vs (node_id n)))}"
    by blast
  have newD: "x \<in> set ns \<and> node_id x \<in> set vs \<and> pending es ?T' (node_id x) = 0"
    if "x \<in> set new" for x
  proof -
    from that have x: "x \<in> set ns" "node_id x \<in> set vs"
      "map_of deg (node_id x) = Some (int (count_list vs (node_id x)))"
      unfolding sn by simp_all
    from x(1) have "node_id x \<in> node_id ` set ns" by simp
    from deg [OF this] x(3) split [of "node_id x"] have "pending es ?T' (node_id x) = 0"
      by simp
    with x show ?thesis by simp
  qed
  have newI: "x \<in> set new"
    if "x \<in> set ns" "node_id x \<in> set vs" "pending es ?T' (node_id x) = 0" for x
  proof -
    from that(1) have "node_id x \<in> node_id ` set ns" by simp
    from deg [OF this] that(3) split [of "node_id x"]
    have "map_of deg (node_id x) = Some (int (count_list vs (node_id x)))" by simp
    with that(1,2) show ?thesis unfolding sn by simp
  qed
  have old_zero: "pending es ?T' (node_id x) = 0 \<and> count_list vs (node_id x) = 0"
    if "x \<in> set (topo @ cur # q)" for x
  proof -
    from that s0 have "x \<in> set ns" by blast
    from mem [OF this] that split [of "node_id x"] show ?thesis by simp
  qed
  have disj: "node_id x \<notin> node_id ` set (topo @ cur # q)" if "x \<in> set new" for x
  proof
    assume "node_id x \<in> node_id ` set (topo @ cur # q)"
    then obtain y where y: "y \<in> set (topo @ cur # q)" "node_id y = node_id x"
      unfolding image_iff by metis
    from old_zero [OF y(1)] y(2) have "count_list vs (node_id x) = 0" by simp
    then have "node_id x \<notin> set vs" by (simp add: count_list_0_iff)
    with newD [OF that] show False by simp
  qed
  have 1: "distinct (map node_id ((topo @ [cur]) @ q @ new))"
  proof -
    have i: "set (map node_id (topo @ cur # q)) \<inter> set (map node_id new) = {}"
    proof (rule equals0I)
      fix k assume k: "k \<in> set (map node_id (topo @ cur # q)) \<inter> set (map node_id new)"
      then have "k \<in> node_id ` set new" unfolding set_map by blast
      then obtain x where x: "x \<in> set new" "k = node_id x" unfolding image_iff by metis
      from k have "k \<in> node_id ` set (topo @ cur # q)" unfolding set_map by blast
      with disj [OF x(1)] x(2) show False by simp
    qed
    have "distinct (map node_id (topo @ cur # q) @ map node_id new)"
      using distinct_append [of "map node_id (topo @ cur # q)" "map node_id new"] d0 dn i
      by blast
    then show ?thesis by simp
  qed
  have 2: "set ((topo @ [cur]) @ q @ new) \<subseteq> set ns"
  proof -
    from newD have "set new \<subseteq> set ns" by blast
    with s0 show ?thesis by simp
  qed
  have 3: "\<forall>k\<in>node_id ` set ns. map_of deg' k = Some (int (pending es ?T' k))"
  proof
    fix k assume k: "k \<in> node_id ` set ns"
    from g [OF k] deg [OF k] split [of k]
    show "map_of deg' k = Some (int (pending es ?T' k))" by simp
  qed
  have 4: "\<forall>n\<in>set ns. n \<in> set ((topo @ [cur]) @ q @ new)
      \<longleftrightarrow> pending es ?T' (node_id n) = 0"
  proof
    fix n assume n: "n \<in> set ns"
    show "n \<in> set ((topo @ [cur]) @ q @ new) \<longleftrightarrow> pending es ?T' (node_id n) = 0"
    proof
      assume "n \<in> set ((topo @ [cur]) @ q @ new)"
      then consider "n \<in> set (topo @ cur # q)" | "n \<in> set new" by auto
      then show "pending es ?T' (node_id n) = 0"
      proof cases
        case 1
        from old_zero [OF this] show ?thesis by simp
      next
        case 2
        from newD [OF this] show ?thesis by simp
      qed
    next
      assume z: "pending es ?T' (node_id n) = 0"
      show "n \<in> set ((topo @ [cur]) @ q @ new)"
      proof (cases "count_list vs (node_id n) = 0")
        case True
        with z split [of "node_id n"] have "pending es ?T (node_id n) = 0" by simp
        with mem [OF n] have "n \<in> set (topo @ cur # q)" by simp
        then show ?thesis by auto
      next
        case False
        then have "node_id n \<in> set vs" by (simp add: count_list_0_iff)
        from newI [OF n this z] show ?thesis by simp
      qed
    qed
  qed
  have 5: "\<forall>e\<in>set es. to_node e \<in> ?T'
      \<longrightarrow> precedes (topo @ [cur]) (from_node e) (to_node e)"
  proof (intro ballI impI)
    fix e assume e: "e \<in> set es" and t: "to_node e \<in> ?T'"
    show "precedes (topo @ [cur]) (from_node e) (to_node e)"
    proof (cases "to_node e \<in> ?T")
      case True
      from ord [OF e True] show ?thesis by (rule precedes_append)
    next
      case False
      with t have tc: "to_node e = ?c" by auto
      from s0 have "cur \<in> set ns" by simp
      from mem [OF this] have "pending es ?T ?c = 0" by simp
      from pending_zero [OF this e tc] have "from_node e \<in> ?T" .
      from precedes_snoc [OF this cT] tc show ?thesis by simp
    qed
  qed
  from 1 2 3 4 5 have "kahn_inv ns es deg' (q @ new) (topo @ [cur])"
    unfolding kahn_inv_def by blast
  with r show ?thesis by blast
qed

lemma kahn_loop_post:
  assumes "distinct (map node_id ns)"
    and "\<forall>e\<in>set es. from_node e \<in> node_id ` set ns \<and> to_node e \<in> node_id ` set ns"
    and "\<forall>k\<in>node_id ` set ns.
      map_of adj k = Some (map to_node (filter (\<lambda>e. from_node e = k) es))"
    and "kahn_inv ns es deg q topo"
  shows "\<exists>res deg'. kahn_loop ns adj deg q topo = Inr res \<and> kahn_inv ns es deg' [] res"
  using assms
proof (induction ns adj deg q topo rule: kahn_loop.induct)
  case (1 ns adj deg topo)
  then show ?case by auto
next
  case (2 ns adj deg cur q topo)
  let ?vs = "map to_node (filter (\<lambda>e. from_node e = node_id cur) es)"
  from "2.prems"(4) have "cur \<in> set ns" unfolding kahn_inv_def by simp
  with "2.prems"(3) have a: "map_of adj (node_id cur) = Some ?vs" by simp
  from kahn_step [OF "2.prems"(1,2) refl "2.prems"(4)] obtain deg' new where
    r: "relax ns ?vs (deg, q) = Inr (deg', q @ new)"
    and i: "kahn_inv ns es deg' (q @ new) (topo @ [cur])" by blast
  from "2.IH" [OF a r refl "2.prems"(1,2,3) i] obtain res deg'' where
    "kahn_loop ns adj deg' (q @ new) (topo @ [cur]) = Inr res" "kahn_inv ns es deg'' [] res"
    by blast
  with a r show ?case by auto
qed

lemma initial_inv:
  assumes dist: "distinct (map node_id ns)"
    and build: "build_graph ns es = Inr (adj, deg)"
  shows "kahn_inv ns es deg (filter (\<lambda>n. map_of deg (node_id n) = Some 0) ns) []"
proof -
  have d: "map_of deg k = Some (int (pending es {} k))" if "k \<in> node_id ` set ns" for k
    using build_graph_props(2) [OF build, of k] that by (simp add: pending_empty)
  have "distinct (map node_id (filter (\<lambda>n. map_of deg (node_id n) = Some 0) ns))"
    using dist by (rule distinct_map_filter)
  moreover have "\<forall>n\<in>set ns. n \<in> set (filter (\<lambda>n. map_of deg (node_id n) = Some 0) ns)
      \<longleftrightarrow> pending es {} (node_id n) = 0"
    using d by simp
  ultimately show ?thesis using d unfolding kahn_inv_def by simp
qed

text \<open>On a well-formed graph the ordering returns, and its result satisfies the invariant
  with an empty queue.\<close>

lemma topological_order_post:
  assumes "well_formed g"
  shows "\<exists>res deg'. get_topological_order g = Inr res
    \<and> kahn_inv (nodes g) (edges g) deg' [] res"
proof -
  from assms have dist: "distinct (map node_id (nodes g))"
    and ends: "\<forall>e\<in>set (edges g). from_node e \<in> node_id ` set (nodes g)
        \<and> to_node e \<in> node_id ` set (nodes g)"
    unfolding well_formed_def endpoints_known_def list_all_iff by simp_all
  from build_graph_returns [OF ends] obtain adj deg where
    b: "build_graph (nodes g) (edges g) = Inr (adj, deg)" by blast
  have a: "\<forall>k\<in>node_id ` set (nodes g).
      map_of adj k = Some (map to_node (filter (\<lambda>e. from_node e = k) (edges g)))"
    using build_graph_props(1) [OF b] by blast
  from kahn_loop_post [OF dist ends a initial_inv [OF dist b]] b show ?thesis
    by (simp add: get_topological_order_def)
qed

lemma edge_rel_finite: "finite (edge_rel g)"
  by (simp add: edge_rel_def)

lemma all_output_if_acyclic:
  assumes inv: "kahn_inv ns (edges g) deg [] res"
    and ends: "\<forall>e\<in>set (edges g). from_node e \<in> node_id ` set ns"
    and acyc: "acyclic (edge_rel g)"
  shows "set res = set ns"
proof (rule ccontr)
  assume ne: "set res \<noteq> set ns"
  from inv have sub: "set res \<subseteq> set ns"
    and mem: "\<And>n. n \<in> set ns \<Longrightarrow> n \<in> set res \<longleftrightarrow> pending (edges g) (node_id ` set res) (node_id n) = 0"
    and dist: "distinct (map node_id res)"
    unfolding kahn_inv_def by simp_all
  let ?U = "node_id ` (set ns - set res)"
  from ne sub obtain n0 where "n0 \<in> set ns - set res" by blast
  then have u: "node_id n0 \<in> ?U" by blast
  from acyc have w: "wf (edge_rel g)"
    by (rule finite_acyclic_wf [OF edge_rel_finite])
  obtain z where z: "z \<in> ?U" and min: "\<And>y. (y, z) \<in> edge_rel g \<Longrightarrow> y \<notin> ?U"
    using wfE_min [OF w u] by blast
  from z obtain n where n: "n \<in> set ns" "n \<notin> set res" "z = node_id n" by blast
  from mem [OF n(1)] n(2) have "pending (edges g) (node_id ` set res) z \<noteq> 0"
    by (simp add: n(3))
  then have "filter (\<lambda>e. to_node e = z \<and> from_node e \<notin> node_id ` set res) (edges g) \<noteq> []"
    by (simp add: pending_def)
  then obtain e where e: "e \<in> set (edges g)" "to_node e = z"
    "from_node e \<notin> node_id ` set res"
    by (auto simp: filter_empty_conv)
  from e(1) ends obtain m where m: "m \<in> set ns" "from_node e = node_id m" by auto
  with e(3) have "m \<notin> set res" by auto
  with m have "from_node e \<in> ?U" by blast
  moreover from e have "(from_node e, z) \<in> edge_rel g"
    unfolding edge_rel_def by force
  ultimately show False using min by blast
qed

lemma position_of_lt:
  "position_of xs k = Some i \<Longrightarrow> i < length xs \<and> node_id (xs ! i) = k"
  unfolding position_of_def by (auto dest: list_index_Some)

lemma acyclic_if_ordered:
  assumes "\<forall>e\<in>set (edges g). precedes res (from_node e) (to_node e)"
  shows "acyclic (edge_rel g)"
proof -
  let ?f = "\<lambda>k. case position_of res k of None \<Rightarrow> 0 | Some i \<Rightarrow> i"
  have "?f a < ?f b" if "(a, b) \<in> edge_rel g" for a b
  proof -
    from that obtain e where "e \<in> set (edges g)" "a = from_node e" "b = to_node e"
      unfolding edge_rel_def by auto
    with assms have "precedes res a b" by simp
    from precedes_lt [OF this] show ?thesis by auto
  qed
  then have "acyclic ((edge_rel g)\<inverse>)"
    by (intro acyclicI_order [where f = ?f]) simp
  then show ?thesis by simp
qed

lemma build_graph_adj_closed:
  assumes b: "build_graph ns es = Inr (adj, deg)" and l: "map_of adj k = Some vs"
  shows "set vs \<subseteq> node_id ` set ns"
proof -
  obtain adj0 deg0 where i: "init_tables ns = (adj0, deg0)"
    by (cases "init_tables ns") auto
  from b have a: "add_edges es (adj0, deg0) = Inr (adj, deg)"
    by (simp add: build_graph_def i)
  from add_edges_props [OF a, of k] have "map_of adj k = map_option
      (\<lambda>ts. ts @ map to_node (filter (\<lambda>e. from_node e = k) es)) (map_of adj0 k)"
    by blast
  with l have "map_of adj0 k \<noteq> None" by (cases "map_of adj0 k") simp_all
  with init_tables_props(1) [OF i, of k] have "k \<in> node_id ` set ns"
    by (simp split: if_splits)
  from build_graph_props(1) [OF b this] l
  have "vs = map to_node (filter (\<lambda>e. from_node e = k) es)" by simp
  with build_graph_props(3) [OF b] show ?thesis by auto
qed

lemma relax_extends:
  "relax ns vs (deg, q) = Inr (deg', q') \<Longrightarrow>
     \<exists>new. q' = q @ new \<and> subseq (map node_id new) vs"
proof (induction vs arbitrary: deg q)
  case Nil
  then show ?case by simp
next
  case (Cons v vs)
  from Cons.prems obtain d where d: "map_of deg v = Some d"
    by (auto split: option.splits)
  let ?deg = "AList.update v (d - 1) deg"
  show ?case
  proof (cases "d - 1 = 0")
    case True
    show ?thesis
    proof (cases "find_node ns v")
      case None
      with Cons.prems d True have "relax ns vs (?deg, q) = Inr (deg', q')" by simp
      from Cons.IH [OF this] obtain new where "q' = q @ new" "subseq (map node_id new) vs"
        by blast
      then show ?thesis by (auto intro: subseq_Cons')
    next
      case (Some n)
      with Cons.prems d True have "relax ns vs (?deg, q @ [n]) = Inr (deg', q')" by simp
      from Cons.IH [OF this] obtain new where
        n: "q' = (q @ [n]) @ new" "subseq (map node_id new) vs" by blast
      from find_node_mem [OF Some] have "node_id n = v" by simp
      with n(2) have "subseq (map node_id (n # new)) (v # vs)" by simp
      with n(1) show ?thesis by (intro exI [of _ "n # new"]) simp
    qed
  next
    case False
    with Cons.prems d have "relax ns vs (?deg, q) = Inr (deg', q')" by simp
    from Cons.IH [OF this] obtain new where "q' = q @ new" "subseq (map node_id new) vs"
      by blast
    then show ?thesis by (auto intro: subseq_Cons')
  qed
qed

lemma kahn_loop_extends:
  "kahn_loop ns adj deg q topo = Inr res \<Longrightarrow> \<exists>rest. res = topo @ q @ rest"
proof (induction ns adj deg q topo rule: kahn_loop.induct)
  case (1 ns adj deg topo)
  then show ?case by simp
next
  case (2 ns adj deg cur q topo)
  from "2.prems" obtain vs where a: "map_of adj (node_id cur) = Some vs"
    by (auto split: option.splits)
  with "2.prems" obtain deg' q' where r: "relax ns vs (deg, q) = Inr (deg', q')"
    and k: "kahn_loop ns adj deg' q' (topo @ [cur]) = Inr res"
    by (auto split: sum.splits)
  from relax_extends [OF r] obtain new where n: "q' = q @ new" by blast
  from "2.IH" [OF a r refl k] obtain rest where "res = (topo @ [cur]) @ q' @ rest" by blast
  with n have "res = topo @ (cur # q) @ (new @ rest)" by simp
  then show ?case by blast
qed

lemma relax_ids_sim:
  assumes "set vs \<subseteq> node_id ` set ns" and "relax ns vs (deg, q) = Inr (deg', q')"
  shows "relax_ids vs (deg, map node_id q) = Inr (deg', map node_id q')"
  using assms
proof (induction vs arbitrary: deg q)
  case Nil
  then show ?case by simp
next
  case (Cons v vs)
  from Cons.prems(2) obtain d where d: "map_of deg v = Some d"
    by (auto split: option.splits)
  let ?deg = "AList.update v (d - 1) deg"
  from Cons.prems(1) have v: "v \<in> node_id ` set ns" and sub: "set vs \<subseteq> node_id ` set ns"
    by simp_all
  from find_node_Some [OF v] obtain n where n: "find_node ns v = Some n" "node_id n = v"
    by blast
  show ?case
  proof (cases "d - 1 = 0")
    case True
    with Cons.prems(2) d n have "relax ns vs (?deg, q @ [n]) = Inr (deg', q')" by simp
    from Cons.IH [OF sub this] d True n(2) show ?thesis by simp
  next
    case False
    with Cons.prems(2) d have "relax ns vs (?deg, q) = Inr (deg', q')" by simp
    from Cons.IH [OF sub this] d False show ?thesis by simp
  qed
qed

lemma check_loop_sim:
  assumes "\<forall>k vs. map_of adj k = Some vs \<longrightarrow> set vs \<subseteq> node_id ` set ns"
    and "kahn_loop ns adj deg q topo = Inr res"
  shows "check_loop adj deg (map node_id q) c = Inr (c + (length res - length topo))"
  using assms
proof (induction ns adj deg q topo arbitrary: c rule: kahn_loop.induct)
  case (1 ns adj deg topo)
  then show ?case by simp
next
  case (2 ns adj deg cur q topo)
  from "2.prems"(2) obtain vs where a: "map_of adj (node_id cur) = Some vs"
    by (auto split: option.splits)
  with "2.prems"(2) obtain deg' q' where r: "relax ns vs (deg, q) = Inr (deg', q')"
    and k: "kahn_loop ns adj deg' q' (topo @ [cur]) = Inr res"
    by (auto split: sum.splits)
  from a "2.prems"(1) have "set vs \<subseteq> node_id ` set ns" by blast
  from relax_ids_sim [OF this r]
  have ri: "relax_ids vs (deg, map node_id q) = Inr (deg', map node_id q')" .
  from kahn_loop_extends [OF k] have "length (topo @ [cur]) \<le> length res" by auto
  then have len: "c + 1 + (length res - length (topo @ [cur])) = c + (length res - length topo)"
    by simp
  from "2.IH" [OF a r refl "2.prems"(1) k, of "c + 1"]
  have "check_loop adj deg' (map node_id q') (c + 1)
      = Inr (c + 1 + (length res - length (topo @ [cur])))" .
  with a ri len show ?case by simp
qed

lemma zero_keys:
  "distinct (map fst al) \<Longrightarrow>
     map fst (filter (\<lambda>kv. snd kv = v) al) = filter (\<lambda>k. map_of al k = Some v) (map fst al)"
proof (induction al)
  case Nil
  then show ?case by simp
next
  case (Cons p al)
  obtain k x where p: "p = (k, x)" by (cases p)
  from Cons.prems p have nk: "k \<notin> fst ` set al" and d: "distinct (map fst al)" by simp_all
  have "filter (\<lambda>k'. map_of (p # al) k' = Some v) (map fst al)
      = filter (\<lambda>k'. map_of al k' = Some v) (map fst al)"
    using nk by (intro filter_cong refl) (auto simp: p)
  with Cons.IH [OF d] show ?case by (simp add: p)
qed

lemma check_acyclic_counts:
  assumes wf: "well_formed g" and t: "get_topological_order g = Inr res"
  shows "check_acyclic (nodes g) (edges g) = Inr (length res = length (nodes g))"
proof -
  from wf have dist: "distinct (map node_id (nodes g))" by (simp add: well_formed_def)
  from t obtain adj deg where b: "build_graph (nodes g) (edges g) = Inr (adj, deg)"
    and k: "kahn_loop (nodes g) adj deg
        (filter (\<lambda>n. map_of deg (node_id n) = Some 0) (nodes g)) [] = Inr res"
    by (auto simp: get_topological_order_def split: sum.splits)
  have keys: "map fst deg = map node_id (nodes g)"
    by (rule build_graph_props(4) [OF b dist])
  with dist have "map fst (filter (\<lambda>kv. snd kv = 0) deg)
      = filter (\<lambda>k. map_of deg k = Some 0) (map node_id (nodes g))"
    by (simp add: zero_keys)
  also have "\<dots> = map node_id (filter (\<lambda>n. map_of deg (node_id n) = Some 0) (nodes g))"
    by (simp add: filter_map comp_def)
  finally have q: "map fst (filter (\<lambda>kv. snd kv = 0) deg)
      = map node_id (filter (\<lambda>n. map_of deg (node_id n) = Some 0) (nodes g))" .
  have "\<forall>k vs. map_of adj k = Some vs \<longrightarrow> set vs \<subseteq> node_id ` set (nodes g)"
    using build_graph_adj_closed [OF b] by blast
  from check_loop_sim [OF this k, of 0] b q show ?thesis
    by (simp add: check_acyclic_def)
qed

text \<open>
  Claim C1: for every acyclic graph with unique node ids and known edge endpoints,
  \<open>get_topological_order\<close> returns a permutation of the nodes of the graph in which,
  for every edge, the source comes strictly before the target.
\<close>

theorem topological_order_correct:
  assumes "well_formed g" and "acyclic (edge_rel g)"
  shows "\<exists>res. get_topological_order g = Inr res \<and> mset res = mset (nodes g)
    \<and> (\<forall>e\<in>set (edges g). precedes res (from_node e) (to_node e))"
proof -
  from assms(1) have dist: "distinct (map node_id (nodes g))"
    and ends: "\<forall>e\<in>set (edges g). from_node e \<in> node_id ` set (nodes g)
        \<and> to_node e \<in> node_id ` set (nodes g)"
    unfolding well_formed_def endpoints_known_def list_all_iff by simp_all
  from topological_order_post [OF assms(1)] obtain res deg where
    t: "get_topological_order g = Inr res" and inv: "kahn_inv (nodes g) (edges g) deg [] res"
    by blast
  from ends have "\<forall>e\<in>set (edges g). from_node e \<in> node_id ` set (nodes g)" by blast
  from all_output_if_acyclic [OF inv this assms(2)] have s: "set res = set (nodes g)" .
  from inv have "distinct (map node_id res)" unfolding kahn_inv_def by simp
  then have "distinct res" by (simp add: distinct_map)
  moreover from dist have "distinct (nodes g)" by (simp add: distinct_map)
  ultimately have m: "mset res = mset (nodes g)"
    using s by (simp add: set_eq_iff_mset_eq_distinct)
  from inv have ord: "\<And>e. e \<in> set (edges g) \<Longrightarrow> to_node e \<in> node_id ` set res
      \<Longrightarrow> precedes res (from_node e) (to_node e)"
    unfolding kahn_inv_def by simp
  have "\<forall>e\<in>set (edges g). precedes res (from_node e) (to_node e)"
  proof
    fix e assume e: "e \<in> set (edges g)"
    with ends s have "to_node e \<in> node_id ` set res" by simp
    from ord [OF e this] show "precedes res (from_node e) (to_node e)" .
  qed
  with t m show ?thesis by blast
qed

lemma chain_graph_well_formed: "well_formed chain_graph"
  by (simp add: well_formed_def endpoints_known_def chain_graph_def mk_graph_def mk_node_def
      mk_edge_def)

lemma chain_graph_acyclic: "acyclic (edge_rel chain_graph)"
  by (rule acyclic_if_ordered [where res = "nodes chain_graph"])
    (simp add: chain_graph_def mk_graph_def mk_node_def mk_edge_def precedes_def position_of_def)

theorem topological_order_correct_witness:
  "well_formed chain_graph \<and> acyclic (edge_rel chain_graph)
     \<and> get_topological_order chain_graph = Inr (nodes chain_graph)
     \<and> (\<exists>res. get_topological_order chain_graph = Inr res
          \<and> mset res = mset (nodes chain_graph)
          \<and> precedes res ''a'' ''b'' \<and> precedes res ''b'' ''c'')"
proof -
  have v: "get_topological_order chain_graph = Inr (nodes chain_graph)"
    by (simp add: get_topological_order_def build_graph_def init_tables_def add_edge_def
        find_node_def chain_graph_def mk_graph_def mk_node_def mk_edge_def)
  from topological_order_correct [OF chain_graph_well_formed chain_graph_acyclic]
  obtain res where r: "get_topological_order chain_graph = Inr res"
    "mset res = mset (nodes chain_graph)"
    "\<forall>e\<in>set (edges chain_graph). precedes res (from_node e) (to_node e)" by blast
  from r(3) have "precedes res ''a'' ''b'' \<and> precedes res ''b'' ''c''"
    by (simp add: chain_graph_def mk_graph_def mk_edge_def)
  with r(1,2) v chain_graph_well_formed chain_graph_acyclic show ?thesis by blast
qed

lemma cycle_graph_well_formed: "well_formed cycle_graph"
  by (simp add: well_formed_def endpoints_known_def cycle_graph_def mk_graph_def mk_node_def
      mk_edge_def)

lemma cycle_graph_cyclic: "\<not> acyclic (edge_rel cycle_graph)"
proof -
  have "(''a'', ''b'') \<in> edge_rel cycle_graph" "(''b'', ''a'') \<in> edge_rel cycle_graph"
    by (simp_all add: edge_rel_def cycle_graph_def mk_graph_def mk_edge_def)
  then have "(''a'', ''a'') \<in> (edge_rel cycle_graph)\<^sup>+" by (rule trancl_into_trancl2 [OF _ r_into_trancl])
  then show ?thesis by (auto simp: acyclic_def)
qed

lemma check_acyclic_iff:
  assumes "well_formed g"
  shows "check_acyclic (nodes g) (edges g) = Inr (acyclic (edge_rel g))"
proof -
  from assms have ends: "\<forall>e\<in>set (edges g). from_node e \<in> node_id ` set (nodes g)
        \<and> to_node e \<in> node_id ` set (nodes g)"
    unfolding well_formed_def endpoints_known_def list_all_iff by simp
  from topological_order_post [OF assms] obtain res deg where
    t: "get_topological_order g = Inr res" and inv: "kahn_inv (nodes g) (edges g) deg [] res"
    by blast
  from inv have dr: "distinct (map node_id res)" and sub: "set res \<subseteq> set (nodes g)"
    and ord: "\<And>e. e \<in> set (edges g) \<Longrightarrow> to_node e \<in> node_id ` set res
      \<Longrightarrow> precedes res (from_node e) (to_node e)"
    unfolding kahn_inv_def by simp_all
  from dr have "distinct res" by (simp add: distinct_map)
  then have cr: "card (set res) = length res" by (rule distinct_card)
  from assms have "distinct (nodes g)" by (simp add: well_formed_def distinct_map)
  then have cn: "card (set (nodes g)) = length (nodes g)" by (rule distinct_card)
  have "length res = length (nodes g) \<longleftrightarrow> acyclic (edge_rel g)"
  proof
    assume "length res = length (nodes g)"
    with cr cn have "card (set (nodes g)) \<le> card (set res)" by simp
    with sub have s: "set res = set (nodes g)" by (intro card_seteq) simp_all
    have "\<forall>e\<in>set (edges g). precedes res (from_node e) (to_node e)"
    proof
      fix e assume e: "e \<in> set (edges g)"
      with ends s have "to_node e \<in> node_id ` set res" by simp
      from ord [OF e this] show "precedes res (from_node e) (to_node e)" .
    qed
    then show "acyclic (edge_rel g)" by (rule acyclic_if_ordered)
  next
    assume a: "acyclic (edge_rel g)"
    from ends have "\<forall>e\<in>set (edges g). from_node e \<in> node_id ` set (nodes g)" by blast
    from all_output_if_acyclic [OF inv this a] have "set res = set (nodes g)" .
    with cr cn show "length res = length (nodes g)" by simp
  qed
  with check_acyclic_counts [OF assms t] show ?thesis by simp
qed

lemma check_edges_None:
  "check_edges ids es = None
     \<longleftrightarrow> (\<forall>e\<in>set es. from_node e \<in> set ids \<and> to_node e \<in> set ids)"
  by (induction es) auto

lemma check_edges_Some:
  "check_edges ids es = Some err \<Longrightarrow>
     (\<exists>e\<in>set es. err = UnknownFromNode (from_node e) \<and> from_node e \<notin> set ids)
     \<or> (\<exists>e\<in>set es. err = UnknownToNode (to_node e) \<and> to_node e \<notin> set ids)"
  by (induction es) (auto split: if_splits)

lemma length_card_distinct: "length xs \<noteq> card (set xs) \<longleftrightarrow> \<not> distinct xs"
  using card_distinct [of xs] distinct_card [of xs] by auto

text \<open>
  Claim C7, as the code has it: \<open>validate_dag_config\<close> never raises and returns a
  boolean verdict.  The verdict is true exactly for a graph with at least one node,
  unique node ids, known edge endpoints and no cycle, and then no failure is recorded.
  Whenever it is false exactly one failure reason is recorded, of one of four kinds: the
  node list is empty, node ids are not unique, an edge refers to an unknown node id, or
  a cycle was detected.
\<close>

theorem validate_verdict:
  "\<exists>verdict errs. validate_dag_config g = Inr (verdict, errs)
     \<and> (verdict \<longleftrightarrow> nodes g \<noteq> [] \<and> well_formed g \<and> acyclic (edge_rel g))
     \<and> (verdict \<longrightarrow> errs = [])
     \<and> (\<not> verdict \<longrightarrow> (\<exists>err. errs = [err]
          \<and> (err = NoNodes \<and> nodes g = []
             \<or> err = DuplicateNodeIds \<and> \<not> distinct (map node_id (nodes g))
             \<or> (\<exists>e\<in>set (edges g). err = UnknownFromNode (from_node e)
                   \<and> from_node e \<notin> node_id ` set (nodes g))
             \<or> (\<exists>e\<in>set (edges g). err = UnknownToNode (to_node e)
                   \<and> to_node e \<notin> node_id ` set (nodes g))
             \<or> err = ContainsCycle \<and> \<not> acyclic (edge_rel g))))"
proof (cases "nodes g = []")
  case True
  then have "validate_dag_config g = Inr (False, [NoNodes])"
    by (simp add: validate_dag_config_def)
  with True show ?thesis
    by (intro exI [of _ False] exI [of _ "[NoNodes]"]) simp
next
  case ne: False
  let ?ids = "map node_id (nodes g)"
  show ?thesis
  proof (cases "distinct ?ids")
    case False
    with ne have "validate_dag_config g = Inr (False, [DuplicateNodeIds])"
      using length_card_distinct [of ?ids] by (simp add: validate_dag_config_def Let_def)
    with False show ?thesis
      by (intro exI [of _ False] exI [of _ "[DuplicateNodeIds]"]) (simp add: well_formed_def)
  next
    case dist: True
    then have lc: "length ?ids = card (set ?ids)"
      using length_card_distinct [of ?ids] by blast
    show ?thesis
    proof (cases "check_edges ?ids (edges g)")
      case (Some err)
      with ne lc have v: "validate_dag_config g = Inr (False, [err])"
        by (simp add: validate_dag_config_def Let_def)
      from check_edges_Some [OF Some]
      have k: "(\<exists>e\<in>set (edges g). err = UnknownFromNode (from_node e)
                   \<and> from_node e \<notin> node_id ` set (nodes g))
             \<or> (\<exists>e\<in>set (edges g). err = UnknownToNode (to_node e)
                   \<and> to_node e \<notin> node_id ` set (nodes g))"
        by simp
      then have "\<not> endpoints_known g"
        unfolding endpoints_known_def list_all_iff by blast
      then have "\<not> well_formed g" by (simp add: well_formed_def)
      with v k show ?thesis
        by (intro exI [of _ False] exI [of _ "[err]"]) blast
    next
      case None
      then have "endpoints_known g"
        unfolding endpoints_known_def list_all_iff check_edges_None by simp
      with dist have wf: "well_formed g" by (simp add: well_formed_def)
      from check_acyclic_iff [OF wf] ne lc None
      have "validate_dag_config g = (if \<not> acyclic (edge_rel g)
          then Inr (False, [ContainsCycle]) else Inr (True, []))"
        by (simp add: validate_dag_config_def Let_def)
      with ne wf show ?thesis
        by (intro exI [of _ "acyclic (edge_rel g)"]
            exI [of _ "if acyclic (edge_rel g) then [] else [ContainsCycle]"]) simp
    qed
  qed
qed

theorem validate_verdict_witness:
  "validate_dag_config chain_graph = Inr (True, [])
     \<and> validate_dag_config cycle_graph = Inr (False, [ContainsCycle])"
proof -
  have n: "nodes chain_graph \<noteq> []" "nodes cycle_graph \<noteq> []"
    by (simp_all add: chain_graph_def cycle_graph_def mk_graph_def)
  have d: "distinct (map node_id (nodes cycle_graph))"
    using cycle_graph_well_formed by (simp add: well_formed_def)
  have k: "\<forall>e\<in>set (edges cycle_graph). from_node e \<in> node_id ` set (nodes cycle_graph)
      \<and> to_node e \<in> node_id ` set (nodes cycle_graph)"
    using cycle_graph_well_formed
    by (simp add: well_formed_def endpoints_known_def list_all_iff)
  from validate_verdict [of chain_graph] n chain_graph_well_formed chain_graph_acyclic
  have 1: "validate_dag_config chain_graph = Inr (True, [])" by auto
  from validate_verdict [of cycle_graph] obtain verdict errs where
    v: "validate_dag_config cycle_graph = Inr (verdict, errs)"
    and f: "verdict \<longleftrightarrow> nodes cycle_graph \<noteq> [] \<and> well_formed cycle_graph
        \<and> acyclic (edge_rel cycle_graph)"
    and e: "\<not> verdict \<longrightarrow> (\<exists>err. errs = [err]
          \<and> (err = NoNodes \<and> nodes cycle_graph = []
             \<or> err = DuplicateNodeIds \<and> \<not> distinct (map node_id (nodes cycle_graph))
             \<or> (\<exists>e\<in>set (edges cycle_graph). err = UnknownFromNode (from_node e)
                   \<and> from_node e \<notin> node_id ` set (nodes cycle_graph))
             \<or> (\<exists>e\<in>set (edges cycle_graph). err = UnknownToNode (to_node e)
                   \<and> to_node e \<notin> node_id ` set (nodes cycle_graph))
             \<or> err = ContainsCycle \<and> \<not> acyclic (edge_rel cycle_graph)))"
    by blast
  from f cycle_graph_cyclic have nv: "\<not> verdict" by simp
  with e n(2) d k have "errs = [ContainsCycle]" by blast
  with v nv have 2: "validate_dag_config cycle_graph = Inr (False, [ContainsCycle])" by simp
  from 1 2 show ?thesis by simp
qed

text \<open>
  The empty graph has unique ids, no unknown endpoint and no cycle, and is rejected,
  with a reason that is none of the three kinds.
\<close>

theorem validate_empty_counterexample:
  "well_formed (mk_graph [] []) \<and> acyclic (edge_rel (mk_graph [] []))
     \<and> validate_dag_config (mk_graph [] []) = Inr (False, [NoNodes])"
  by (simp add: well_formed_def endpoints_known_def edge_rel_def mk_graph_def
      validate_dag_config_def acyclic_def)




lemma tie_graph_build:
  "build_graph (nodes tie_graph) (edges tie_graph)
     = Inr ([(''a'', [''c'', ''b'']), (''b'', []), (''c'', [])],
            [(''a'', 0), (''b'', 1), (''c'', 1)])"
  by (simp add: build_graph_def init_tables_def add_edge_def tie_graph_def mk_graph_def
      mk_node_def mk_edge_def)




lemma single_node_levels: "bfs_levels [n] [] [(n, 0)] {} [] = [(node_id n, 0)]"
  by (simp add: children_def)

lemma single_node_hierarchical:
  assumes "nodes g = [n]" and "edges g = []"
  shows "hierarchical_layout g
    = Inr (g\<lparr>nodes := [n\<lparr>position := Some \<lparr>pos_x = - 75, pos_y = 0\<rparr>\<rparr>]\<rparr>)"
  using assms
  by (simp add: hierarchical_layout_def init_in_degree_def children_def group_level_def
      place_node_def Let_def)

lemma single_node_statistics:
  assumes "nodes g = [n]" and "edges g = []"
  shows "\<exists>st. get_dag_statistics g = Inr st \<and> density st = 0
    \<and> start_nodes st = [node_id n] \<and> end_nodes st = [node_id n]"
  using assms
  by (simp add: get_dag_statistics_def init_stat_tables_def Let_def)

text \<open>
  Claim C5, as the code has it: for a graph of one isolated node and no edges, the
  hierarchical layout assigns that node level 0 and the position
  \<open>((0 - 1 / 2) * 150, 0 * 100) = (-75, 0)\<close>; the statistics report density 0 and that
  node as the only source and the only sink.
\<close>

theorem single_node_layout_and_statistics:
  assumes "nodes g = [n]" and "edges g = []"
  shows "optimize_dag_layout rand g ''hierarchical''
      = Inr (g\<lparr>nodes := [n\<lparr>position := Some \<lparr>pos_x = - 75, pos_y = 0\<rparr>\<rparr>]\<rparr>)
    \<and> bfs_levels (nodes g) (edges g) [(n, 0)] {} [] = [(node_id n, 0)]
    \<and> (\<exists>st. get_dag_statistics g = Inr st \<and> density st = 0
          \<and> start_nodes st = [node_id n] \<and> end_nodes st = [node_id n])"
  using single_node_hierarchical [OF assms] single_node_statistics [OF assms]
    single_node_levels [of n] assms
  by (simp add: optimize_dag_layout_def)

theorem single_node_layout_and_statistics_witness:
  "nodes single_graph = [mk_node ''a''] \<and> edges single_graph = []
     \<and> optimize_dag_layout zero_rand single_graph ''hierarchical''
         = Inr (single_graph\<lparr>nodes :=
             [(mk_node ''a'')\<lparr>position := Some \<lparr>pos_x = - 75, pos_y = 0\<rparr>\<rparr>]\<rparr>)
     \<and> (\<exists>st. get_dag_statistics single_graph = Inr st \<and> density st = 0
          \<and> start_nodes st = [''a''] \<and> end_nodes st = [''a''])"
proof -
  have 1: "nodes single_graph = [mk_node ''a'']" and 2: "edges single_graph = []"
    by (simp_all add: single_graph_def mk_graph_def)
  have "node_id (mk_node ''a'') = ''a''" by (simp add: mk_node_def)
  with single_node_layout_and_statistics [OF 1 2, of zero_rand] 1 2 show ?thesis by simp
qed

text \<open>The single node is placed at \<open>(-75, 0)\<close>, not at \<open>(0, 0)\<close>.\<close>

theorem single_node_position_counterexample:
  "nodes single_graph = [mk_node ''a''] \<and> edges single_graph = []
     \<and> map_sum id (\<lambda>g. map position (nodes g)) (hierarchical_layout single_graph)
         = Inr [Some \<lparr>pos_x = - 75, pos_y = 0\<rparr>]
     \<and> \<lparr>pos_x = - 75, pos_y = 0\<rparr> \<noteq> \<lparr>pos_x = 0, pos_y = 0\<rparr>"
proof -
  have 1: "nodes single_graph = [mk_node ''a'']" and 2: "edges single_graph = []"
    by (simp_all add: single_graph_def mk_graph_def)
  from single_node_hierarchical [OF 1 2] 1 2 show ?thesis by simp
qed

lemma clear_position_update [simp]: "clear_position (n\<lparr>position := p\<rparr>) = clear_position n"
  by (simp add: clear_position_def)

lemma repel_returns:
  assumes "position a \<noteq> None" and "position b \<noteq> None"
  shows "\<exists>f'. repel a b f = Inr f'"
proof -
  from assms obtain p po where "position a = Some p" "position b = Some po" by auto
  then show ?thesis
    by (cases f) (simp add: repel_def py_truediv_def Let_def)
qed

lemma repel_coincident:
  assumes "position a = Some p" and "position b = Some p"
  shows "repel a b f = Inr f"
  using assms by (cases f) (simp add: repel_def Let_def)

lemma net_force_returns:
  assumes "position a \<noteq> None" and "\<forall>b\<in>set others. position b \<noteq> None"
  shows "\<exists>f'. net_force a others f = Inr f'"
  using assms(2)
proof (induction others arbitrary: f)
  case Nil
  then show ?case by simp
next
  case (Cons b others)
  from Cons.prems have "position b \<noteq> None" by simp
  from repel_returns [OF assms(1) this, of f] obtain f' where f': "repel a b f = Inr f'"
    by blast
  from Cons.prems have "\<forall>b\<in>set others. position b \<noteq> None" by simp
  from Cons.IH [OF this, of f'] f' show ?case by simp
qed

lemma force_sweep_returns:
  assumes "\<forall>n\<in>set (moved @ todo). position n \<noteq> None"
  shows "\<exists>r. force_sweep moved todo = Inr r \<and> (\<forall>n\<in>set r. position n \<noteq> None)
    \<and> map clear_position r = map clear_position (moved @ todo)"
  using assms
proof (induction todo arbitrary: moved)
  case Nil
  then show ?case by simp
next
  case (Cons n todo)
  from Cons.prems obtain p where p: "position n = Some p" by auto
  then have "position n \<noteq> None" by simp
  from net_force_returns [OF this Cons.prems, of "(0, 0)"] obtain fx fy where
    f: "net_force n (moved @ n # todo) (0, 0) = Inr (fx, fy)" by (metis surj_pair)
  let ?n = "n\<lparr>position := Some \<lparr>pos_x = pos_x p + fx * 0.1, pos_y = pos_y p + fy * 0.1\<rparr>\<rparr>"
  from Cons.prems have "\<forall>x\<in>set ((moved @ [?n]) @ todo). position x \<noteq> None" by auto
  from Cons.IH [OF this] obtain r where
    r: "force_sweep (moved @ [?n]) todo = Inr r" "\<forall>n\<in>set r. position n \<noteq> None"
      "map clear_position r = map clear_position ((moved @ [?n]) @ todo)" by blast
  from r(1) f p have "force_sweep moved (n # todo) = Inr r" by simp
  moreover from r(3) have "map clear_position r = map clear_position (moved @ n # todo)"
    by simp
  ultimately show ?case using r(2) by blast
qed

lemma force_iterate_returns:
  assumes "\<forall>n\<in>set ns. position n \<noteq> None"
  shows "\<exists>r. force_iterate k ns = Inr r \<and> (\<forall>n\<in>set r. position n \<noteq> None)
    \<and> map clear_position r = map clear_position ns"
  using assms
proof (induction k arbitrary: ns)
  case 0
  then show ?case by simp
next
  case (Suc k)
  from Suc.prems have "\<forall>n\<in>set ([] @ ns). position n \<noteq> None" by simp
  from force_sweep_returns [OF this] obtain r where
    r: "force_sweep [] ns = Inr r" "\<forall>n\<in>set r. position n \<noteq> None"
      "map clear_position r = map clear_position ns" by auto
  from Suc.IH [OF r(2)] obtain r' where
    "force_iterate k r = Inr r'" "\<forall>n\<in>set r'. position n \<noteq> None"
    "map clear_position r' = map clear_position r" by blast
  with r show ?case by simp
qed

lemma init_random_positioned:
  "(\<forall>n\<in>set (init_random rand k ns). position n \<noteq> None)
     \<and> map clear_position (init_random rand k ns) = map clear_position ns"
  by (induction ns arbitrary: k) simp_all

lemma force_layout_returns:
  "\<exists>ns. force_layout rand g = Inr (g\<lparr>nodes := ns\<rparr>)
     \<and> map clear_position ns = map clear_position (nodes g)"
proof -
  from init_random_positioned [of rand 0 "nodes g"]
  have i: "\<forall>n\<in>set (init_random rand 0 (nodes g)). position n \<noteq> None"
    "map clear_position (init_random rand 0 (nodes g)) = map clear_position (nodes g)"
    by simp_all
  from force_iterate_returns [OF i(1), of 5] obtain r where
    "force_iterate 5 (init_random rand 0 (nodes g)) = Inr r"
    "map clear_position r = map clear_position (init_random rand 0 (nodes g))" by blast
  with i(2) have "force_layout rand g = Inr (g\<lparr>nodes := r\<rparr>)
      \<and> map clear_position r = map clear_position (nodes g)"
    by (simp add: force_layout_def)
  then show ?thesis by blast
qed

lemma force_sweep_single:
  assumes "position m = Some p"
  shows "force_sweep [] [m] = Inr [m]"
proof -
  have "m\<lparr>position := Some \<lparr>pos_x = pos_x p, pos_y = pos_y p\<rparr>\<rparr> = m"
    using assms by simp
  with assms show ?thesis by (simp add: repel_def)
qed

lemma force_iterate_single:
  assumes "position m = Some p"
  shows "force_iterate k [m] = Inr [m]"
  by (induction k) (simp_all add: force_sweep_single [OF assms] del: force_sweep.simps)

lemma force_layout_single:
  assumes "nodes g = [n]"
  shows "force_layout rand g = Inr (g\<lparr>nodes := [n\<lparr>position := Some
      \<lparr>pos_x = uniform (- 300) 300 (rand 0), pos_y = uniform (- 200) 200 (rand 1)\<rparr>\<rparr>]\<rparr>)"
proof -
  let ?n = "n\<lparr>position := Some
      \<lparr>pos_x = uniform (- 300) 300 (rand 0), pos_y = uniform (- 200) 200 (rand 1)\<rparr>\<rparr>"
  have "position ?n = Some
      \<lparr>pos_x = uniform (- 300) 300 (rand 0), pos_y = uniform (- 200) 200 (rand 1)\<rparr>"
    by simp
  from force_iterate_single [OF this, of 5] assms show ?thesis
    by (simp add: force_layout_def)
qed

lemma force_layout_empty:
  assumes "nodes g = []"
  shows "force_layout rand g = Inr g"
proof -
  have "force_iterate k [] = Inr []" for k by (induction k) simp_all
  then have "force_layout rand g = Inr (g\<lparr>nodes := nodes g\<rparr>)"
    using assms by (simp add: force_layout_def)
  then show ?thesis by simp
qed

text \<open>
  Claim C6, as the code has it.  The force layout never raises: every division is by a
  distance that was tested positive.  Two nodes at the same position exert no force on
  each other.  With zero nodes nothing changes.  With one node, the node is given its
  random initial position, \<open>x\<close> drawn from \<open>[-300, 300]\<close> and \<open>y\<close> from \<open>[-200, 200]\<close>,
  and the five rounds leave it there: its position is set, not left absent.
\<close>

theorem force_layout_safe:
  "(\<exists>g'. force_layout rand g = Inr g')
   \<and> (position a = Some p \<and> position b = Some p \<longrightarrow> repel a b f = Inr f)
   \<and> (nodes g = [] \<longrightarrow> force_layout rand g = Inr g)
   \<and> (nodes g = [n] \<longrightarrow> force_layout rand g = Inr (g\<lparr>nodes := [n\<lparr>position := Some
        \<lparr>pos_x = uniform (- 300) 300 (rand 0), pos_y = uniform (- 200) 200 (rand 1)\<rparr>\<rparr>]\<rparr>))"
proof (intro conjI impI)
  from force_layout_returns [of rand g] show "\<exists>g'. force_layout rand g = Inr g'" by blast
next
  assume "position a = Some p \<and> position b = Some p"
  then show "repel a b f = Inr f" by (simp add: repel_coincident)
next
  assume "nodes g = []"
  then show "force_layout rand g = Inr g" by (rule force_layout_empty)
next
  assume "nodes g = [n]"
  then show "force_layout rand g = Inr (g\<lparr>nodes := [n\<lparr>position := Some
        \<lparr>pos_x = uniform (- 300) 300 (rand 0), pos_y = uniform (- 200) 200 (rand 1)\<rparr>\<rparr>]\<rparr>)"
    by (rule force_layout_single)
qed

theorem force_layout_safe_witness:
  "nodes single_graph = [mk_node ''a''] \<and> nodes (mk_graph [] []) = []
     \<and> force_layout zero_rand single_graph = Inr (single_graph\<lparr>nodes :=
          [(mk_node ''a'')\<lparr>position := Some \<lparr>pos_x = - 300, pos_y = - 200\<rparr>\<rparr>]\<rparr>)
     \<and> force_layout zero_rand (mk_graph [] []) = Inr (mk_graph [] [])
     \<and> repel ((mk_node ''a'')\<lparr>position := Some \<lparr>pos_x = 1, pos_y = 2\<rparr>\<rparr>)
          ((mk_node ''b'')\<lparr>position := Some \<lparr>pos_x = 1, pos_y = 2\<rparr>\<rparr>) (0, 0) = Inr (0, 0)"
proof -
  have 1: "nodes single_graph = [mk_node ''a'']" and 2: "nodes (mk_graph [] []) = []"
    by (simp_all add: single_graph_def mk_graph_def)
  from force_layout_safe [of zero_rand single_graph a p b f "mk_node ''a''"] 1
  have 3: "force_layout zero_rand single_graph = Inr (single_graph\<lparr>nodes :=
          [(mk_node ''a'')\<lparr>position := Some \<lparr>pos_x = - 300, pos_y = - 200\<rparr>\<rparr>]\<rparr>)"
    by (simp add: uniform_def zero_rand_def)
  from force_layout_safe [of zero_rand "mk_graph [] []" a p b f n] 2
  have 4: "force_layout zero_rand (mk_graph [] []) = Inr (mk_graph [] [])" by simp
  from force_layout_safe [of rand g
      "(mk_node ''a'')\<lparr>position := Some \<lparr>pos_x = 1, pos_y = 2\<rparr>\<rparr>" "\<lparr>pos_x = 1, pos_y = 2\<rparr>"
      "(mk_node ''b'')\<lparr>position := Some \<lparr>pos_x = 1, pos_y = 2\<rparr>\<rparr>" "(0, 0)" n]
  have 5: "repel ((mk_node ''a'')\<lparr>position := Some \<lparr>pos_x = 1, pos_y = 2\<rparr>\<rparr>)
          ((mk_node ''b'')\<lparr>position := Some \<lparr>pos_x = 1, pos_y = 2\<rparr>\<rparr>) (0, 0) = Inr (0, 0)"
    by simp
  from 1 2 3 4 5 show ?thesis by blast
qed

text \<open>
  One node without a position: after the force layout its position is set, to the
  random initial position, here \<open>(-300, -200)\<close>.
\<close>

theorem force_layout_one_node_counterexample:
  "nodes single_graph = [mk_node ''a''] \<and> position (mk_node ''a'') = None
     \<and> map_sum id (\<lambda>g. map position (nodes g)) (force_layout zero_rand single_graph)
         = Inr [Some \<lparr>pos_x = - 300, pos_y = - 200\<rparr>]"
proof -
  have 1: "nodes single_graph = [mk_node ''a'']"
    by (simp add: single_graph_def mk_graph_def)
  from force_layout_single [OF 1, of zero_rand] 1 show ?thesis
    by (simp add: uniform_def zero_rand_def mk_node_def)
qed

subsection \<open>Hierarchical layout: it returns, and only positions change\<close>










subsection \<open>Circular layout\<close>







subsection \<open>The count of the acyclicity check is bounded by the number of distinct ids\<close>

lemma init_tables_distinct:
  fixes adj :: adjacency and deg :: degrees
  assumes "fold (\<lambda>n (adj, deg). (AList.update (node_id n) [] adj, AList.update (node_id n) 0 deg))
      ns (adj, deg) = (adj', deg')"
    and "distinct (map fst deg)"
  shows "distinct (map fst deg')"
  using assms
proof (induction ns arbitrary: adj deg)
  case Nil
  then show ?case by simp
next
  case (Cons n ns)
  from Cons.prems(1) have "fold (\<lambda>n (adj, deg).
      (AList.update (node_id n) [] adj, AList.update (node_id n) 0 deg)) ns
      (AList.update (node_id n) [] adj, AList.update (node_id n) 0 deg) = (adj', deg')"
    by simp
  from Cons.IH [OF this AList.distinct_update [OF Cons.prems(2)]] show ?case .
qed

lemma build_graph_keys:
  assumes b: "build_graph ns es = Inr (adj, deg)"
  shows "distinct (map fst deg)" and "fst ` set deg = node_id ` set ns"
proof -
  obtain adj0 deg0 where i: "init_tables ns = (adj0, deg0)"
    by (cases "init_tables ns") auto
  from b have a: "add_edges es (adj0, deg0) = Inr (adj, deg)"
    by (simp add: build_graph_def i)
  from init_tables_distinct [OF i [unfolded init_tables_def]]
  have "distinct (map fst deg0)" by simp
  moreover from add_edges_props [OF a] have "map fst deg = map fst deg0" by blast
  ultimately show "distinct (map fst deg)" by simp
  show "fst ` set deg = node_id ` set ns"
  proof (intro set_eqI iffI)
    fix k assume "k \<in> fst ` set deg"
    then have "map_of deg k \<noteq> None" by (simp add: map_of_eq_None_iff)
    with build_graph_props(2) [OF b, of k] show "k \<in> node_id ` set ns"
      by (simp split: if_splits)
  next
    fix k assume "k \<in> node_id ` set ns"
    with build_graph_props(2) [OF b, of k] have "map_of deg k \<noteq> None" by simp
    then show "k \<in> fst ` set deg" by (simp add: map_of_eq_None_iff)
  qed
qed

lemma relax_ids_returns:
  assumes "set vs \<subseteq> fst ` set deg"
  shows "\<exists>deg' q'. relax_ids vs (deg, q) = Inr (deg', q')
    \<and> fst ` set deg' = fst ` set deg \<and> set q' \<subseteq> set q \<union> set vs"
  using assms
proof (induction vs arbitrary: deg q)
  case Nil
  then show ?case by simp
next
  case (Cons v vs)
  from Cons.prems have "v \<in> fst ` set deg" by simp
  from key_map_of [OF this] obtain d where d: "map_of deg v = Some d" by blast
  let ?deg = "AList.update v (d - 1) deg"
  from Cons.prems have k: "fst ` set ?deg = fst ` set deg"
    by (auto simp: AList.dom_update)
  with Cons.prems have sub: "set vs \<subseteq> fst ` set ?deg" by simp
  show ?case
  proof (cases "d - 1 = 0")
    case True
    from Cons.IH [OF sub, of "q @ [v]"] obtain deg' q' where
      r: "relax_ids vs (?deg, q @ [v]) = Inr (deg', q')"
      "fst ` set deg' = fst ` set ?deg" "set q' \<subseteq> set (q @ [v]) \<union> set vs" by blast
    from r(1) d True have "relax_ids (v # vs) (deg, q) = Inr (deg', q')" by simp
    moreover from r(2) k have "fst ` set deg' = fst ` set deg" by simp
    moreover from r(3) have "set q' \<subseteq> set q \<union> set (v # vs)" by auto
    ultimately show ?thesis by blast
  next
    case False
    from Cons.IH [OF sub, of q] obtain deg' q' where
      r: "relax_ids vs (?deg, q) = Inr (deg', q')"
      "fst ` set deg' = fst ` set ?deg" "set q' \<subseteq> set q \<union> set vs" by blast
    from r(1) d False have "relax_ids (v # vs) (deg, q) = Inr (deg', q')" by simp
    moreover from r(2) k have "fst ` set deg' = fst ` set deg" by simp
    moreover from r(3) have "set q' \<subseteq> set q \<union> set (v # vs)" by auto
    ultimately show ?thesis by blast
  qed
qed

lemma check_loop_bound:
  assumes "\<forall>k\<in>fst ` set deg. \<exists>vs. map_of adj k = Some vs \<and> set vs \<subseteq> fst ` set deg"
    and "set q \<subseteq> fst ` set deg"
  shows "\<exists>c'. check_loop adj deg q c = Inr c' \<and> c' \<le> c + length q + positives deg"
  using assms
proof (induction adj deg q c rule: check_loop.induct)
  case (1 adj deg c)
  then show ?case by simp
next
  case (2 adj deg cur q c)
  from "2.prems"(2) have "cur \<in> fst ` set deg" by simp
  with "2.prems"(1) obtain vs where vs: "map_of adj cur = Some vs" "set vs \<subseteq> fst ` set deg"
    by blast
  from relax_ids_returns [OF vs(2), of q] obtain deg' q' where
    r: "relax_ids vs (deg, q) = Inr (deg', q')" and k: "fst ` set deg' = fst ` set deg"
    and s: "set q' \<subseteq> set q \<union> set vs" by blast
  from relax_ids_measure [OF r] have m: "length q' + positives deg' \<le> length q + positives deg" .
  from "2.prems"(1) k
  have a: "\<forall>k\<in>fst ` set deg'. \<exists>vs. map_of adj k = Some vs \<and> set vs \<subseteq> fst ` set deg'"
    by simp
  from s vs(2) "2.prems"(2) k have b: "set q' \<subseteq> fst ` set deg'" by auto
  from "2.IH" [OF vs(1) r refl a b] obtain c' where
    c': "check_loop adj deg' q' (c + 1) = Inr c'" "c' \<le> c + 1 + length q' + positives deg'"
    by blast
  from c'(1) vs(1) r have "check_loop adj deg (cur # q) c = Inr c'" by simp
  moreover from c'(2) m have "c' \<le> c + length (cur # q) + positives deg" by simp
  ultimately show ?case by blast
qed

lemma zeros_positives:
  "length (filter (\<lambda>kv. snd kv = 0) (deg :: degrees)) + positives deg \<le> length deg"
  by (induction deg) (auto simp: positives_def)

lemma check_acyclic_duplicates:
  assumes ends: "endpoints_known g" and nd: "\<not> distinct (map node_id (nodes g))"
  shows "check_acyclic (nodes g) (edges g) = Inr False"
proof -
  from ends have e: "\<forall>e\<in>set (edges g). from_node e \<in> node_id ` set (nodes g)
        \<and> to_node e \<in> node_id ` set (nodes g)"
    unfolding endpoints_known_def list_all_iff by simp
  from build_graph_returns [OF e] obtain adj deg where
    b: "build_graph (nodes g) (edges g) = Inr (adj, deg)" by blast
  note keys = build_graph_keys [OF b]
  have closed: "\<forall>k\<in>fst ` set deg. \<exists>vs. map_of adj k = Some vs \<and> set vs \<subseteq> fst ` set deg"
  proof
    fix k assume "k \<in> fst ` set deg"
    with keys(2) have k: "k \<in> node_id ` set (nodes g)" by simp
    from build_graph_props(1) [OF b k]
    have m: "map_of adj k = Some (map to_node (filter (\<lambda>e. from_node e = k) (edges g)))" .
    from build_graph_adj_closed [OF b m] keys(2) m
    show "\<exists>vs. map_of adj k = Some vs \<and> set vs \<subseteq> fst ` set deg" by simp
  qed
  let ?q = "map fst (filter (\<lambda>kv. snd kv = 0) deg)"
  have "set ?q \<subseteq> fst ` set deg" by auto
  from check_loop_bound [OF closed this, of 0] obtain c where
    c: "check_loop adj deg ?q 0 = Inr c" "c \<le> 0 + length ?q + positives deg" by blast
  from c(2) zeros_positives [of deg] have "c \<le> length deg" by simp
  also from keys(1) have "length deg = card (set (map fst deg))"
    using distinct_card [of "map fst deg"] by simp
  also from keys(2) have "\<dots> = card (set (map node_id (nodes g)))" by simp
  also have "\<dots> < length (nodes g)"
    using card_length [of "map node_id (nodes g)"] card_distinct [of "map node_id (nodes g)"] nd
    by (cases "card (set (map node_id (nodes g))) = length (map node_id (nodes g))") auto
  finally have "c \<noteq> length (nodes g)" by simp
  with b c(1) show ?thesis by (simp add: check_acyclic_def)
qed

lemma cyclic_order_shorter:
  assumes wf: "well_formed g" and cyc: "\<not> acyclic (edge_rel g)"
  shows "\<exists>res. get_topological_order g = Inr res \<and> length res < length (nodes g)"
proof -
  from topological_order_post [OF wf] obtain res deg where
    t: "get_topological_order g = Inr res" and inv: "kahn_inv (nodes g) (edges g) deg [] res"
    by blast
  from inv have dr: "distinct (map node_id res)" and sub: "set res \<subseteq> set (nodes g)"
    unfolding kahn_inv_def by simp_all
  from dr have "distinct res" by (simp add: distinct_map)
  then have "length res = card (set res)" by (simp add: distinct_card)
  also from sub have "\<dots> \<le> card (set (nodes g))" by (intro card_mono) simp_all
  also have "\<dots> \<le> length (nodes g)" by (rule card_length)
  finally have le: "length res \<le> length (nodes g)" .
  from check_acyclic_counts [OF wf t] check_acyclic_iff [OF wf] cyc
  have "length res \<noteq> length (nodes g)" by simp
  with le have "length res < length (nodes g)" by simp
  with t show ?thesis by blast
qed

text \<open>
  Claim C2, as the code has it: for every graph whose edge endpoints are node ids and
  that contains a directed cycle, \<open>_check_acyclic\<close> returns false; when moreover the
  node ids are unique, \<open>get_topological_order\<close> returns a sequence strictly shorter
  than the node list.
\<close>

theorem cycle_detected:
  assumes "endpoints_known g" and "\<not> acyclic (edge_rel g)"
  shows "check_acyclic (nodes g) (edges g) = Inr False
    \<and> (distinct (map node_id (nodes g)) \<longrightarrow>
          (\<exists>res. get_topological_order g = Inr res \<and> length res < length (nodes g)))"
proof (cases "distinct (map node_id (nodes g))")
  case True
  with assms(1) have wf: "well_formed g" by (simp add: well_formed_def)
  from check_acyclic_iff [OF wf] assms(2)
  have "check_acyclic (nodes g) (edges g) = Inr False" by simp
  with cyclic_order_shorter [OF wf assms(2)] show ?thesis by blast
next
  case False
  with check_acyclic_duplicates [OF assms(1) False] show ?thesis by blast
qed

theorem cycle_detected_witness:
  "endpoints_known cycle_graph \<and> \<not> acyclic (edge_rel cycle_graph)
     \<and> distinct (map node_id (nodes cycle_graph))
     \<and> check_acyclic (nodes cycle_graph) (edges cycle_graph) = Inr False
     \<and> (\<exists>res. get_topological_order cycle_graph = Inr res \<and> length res < 2)"
proof -
  from cycle_graph_well_formed have k: "endpoints_known cycle_graph"
    and d: "distinct (map node_id (nodes cycle_graph))"
    by (simp_all add: well_formed_def)
  have n: "length (nodes cycle_graph) = 2" by (simp add: cycle_graph_def mk_graph_def)
  note c = cycle_detected [OF k cycle_graph_cyclic]
  from c [THEN conjunct2, THEN mp, OF d] n
  have "\<exists>res. get_topological_order cycle_graph = Inr res \<and> length res < 2" by simp
  with c [THEN conjunct1] k d cycle_graph_cyclic show ?thesis by blast
qed

text \<open>
  Two nodes share the id \<open>a\<close> and \<open>b\<close>, \<open>c\<close> lie on a cycle: the in-degree of \<open>b\<close> is 2
  and each of the two \<open>a\<close> nodes decrements it, so \<open>b\<close> and then \<open>c\<close> are output and
  the result has as many nodes as the graph.  With an edge to an id that is no node,
  both functions raise \<open>KeyError\<close> and return nothing.
\<close>

theorem cycle_detected_counterexample:
  "endpoints_known dup_graph \<and> \<not> acyclic (edge_rel dup_graph)
     \<and> length (nodes dup_graph) = 4
     \<and> get_topological_order dup_graph
         = Inr [mk_node ''a'', mk_node ''a'', mk_node ''b'', mk_node ''c'']
     \<and> \<not> acyclic (edge_rel dangling_graph)
     \<and> check_acyclic (nodes dangling_graph) (edges dangling_graph) = Inl KeyError
     \<and> get_topological_order dangling_graph = Inl KeyError"
proof -
  have 1: "endpoints_known dup_graph"
    by (simp add: endpoints_known_def dup_graph_def mk_graph_def mk_node_def mk_edge_def)
  have "(''b'', ''c'') \<in> edge_rel dup_graph" "(''c'', ''b'') \<in> edge_rel dup_graph"
    by (simp_all add: edge_rel_def dup_graph_def mk_graph_def mk_edge_def)
  then have "(''b'', ''b'') \<in> (edge_rel dup_graph)\<^sup>+"
    by (rule trancl_into_trancl2 [OF _ r_into_trancl])
  then have 2: "\<not> acyclic (edge_rel dup_graph)" by (auto simp: acyclic_def)
  have 3: "length (nodes dup_graph) = 4" by (simp add: dup_graph_def mk_graph_def)
  have 4: "get_topological_order dup_graph
      = Inr [mk_node ''a'', mk_node ''a'', mk_node ''b'', mk_node ''c'']"
    by (simp add: get_topological_order_def build_graph_def init_tables_def add_edge_def
        find_node_def dup_graph_def mk_graph_def mk_node_def mk_edge_def)
  have "(''a'', ''b'') \<in> edge_rel dangling_graph" "(''b'', ''a'') \<in> edge_rel dangling_graph"
    by (simp_all add: edge_rel_def dangling_graph_def mk_graph_def mk_edge_def)
  then have "(''a'', ''a'') \<in> (edge_rel dangling_graph)\<^sup>+"
    by (rule trancl_into_trancl2 [OF _ r_into_trancl])
  then have 5: "\<not> acyclic (edge_rel dangling_graph)" by (auto simp: acyclic_def)
  have 6: "build_graph (nodes dangling_graph) (edges dangling_graph) = Inl KeyError"
    by (simp add: build_graph_def init_tables_def add_edge_def dangling_graph_def mk_graph_def
        mk_node_def mk_edge_def)
  then have 7: "check_acyclic (nodes dangling_graph) (edges dangling_graph) = Inl KeyError"
    "get_topological_order dangling_graph = Inl KeyError"
    by (simp_all add: check_acyclic_def get_topological_order_def)
  from 1 2 3 4 5 7 show ?thesis by blast
qed

end
